theory Spec2Isabelle
  imports Complex_Main "HOL-Library.Sublist" "HOL-Library.Multiset" "HOL-Library.Product_Lexorder"
begin

section \<open>Data model of spelling.py\<close>

text \<open>
  A word is a list of characters. The engine of \<^verbatim>\<open>spelling.py\<close> only takes words apart
  and compares them, so it is modelled for any character type \<open>'a\<close>; the metric of
  \<^verbatim>\<open>wordmetric.py\<close> needs case folding and the accented vowels and is modelled on
  \<open>char\<close>, read as a code point between 0 and 255 (Latin-1).

  \<^verbatim>\<open>Term\<close> and \<^verbatim>\<open>Suggestion\<close> are the two value classes. The fields keep the
  source's names with a prefix (\<open>term\<close> is a keyword here). Deletion distances and
  counts are Python integers. The default \<^verbatim>\<open>distance=float('inf')\<close> of a Suggestion is
  never used by the corrector: every Suggestion it builds is given its distance.
\<close>

record 'a Term =
  t_term :: "'a list"
  t_count :: int

record 'a Suggestion =
  s_term :: "'a list"
  s_count :: int
  s_distance :: int

text \<open>
  \<^verbatim>\<open>Suggestion(term, count=0, distance=...)\<close>: the constructor, with the default
  count where the caller gives none.
\<close>

definition Suggestion_init :: "'a list \<Rightarrow> int \<Rightarrow> int \<Rightarrow> 'a Suggestion" where
  "Suggestion_init w c d = \<lparr>s_term = w, s_count = c, s_distance = d\<rparr>"

subsection \<open>Python sets of Suggestions\<close>

text \<open>
  \<^verbatim>\<open>Suggestion.__eq__\<close> and \<^verbatim>\<open>__hash__\<close> look at the term only, so a set of
  Suggestions holds at most one object for each term, and adding an object whose term
  is present leaves the set as it is (the object already there stays). A set is
  modelled as the list of its elements in the order they were added. CPython iterates
  a set in hash order; the model iterates in insertion order, and the concrete
  evaluations below are at inputs where the order does not matter.
\<close>

definition contains :: "'a Suggestion list \<Rightarrow> 'a Suggestion \<Rightarrow> bool" where
  "contains xs s = (\<exists>x \<in> set xs. s_term x = s_term s)"

definition set_add :: "'a Suggestion list \<Rightarrow> 'a Suggestion \<Rightarrow> 'a Suggestion list" where
  "set_add xs s = (if contains xs s then xs else xs @ [s])"

definition set_update :: "'a Suggestion list \<Rightarrow> 'a Suggestion list \<Rightarrow> 'a Suggestion list" where
  "set_update xs ys = foldl set_add xs ys"

subsection \<open>The deletion generator: \<^verbatim>\<open>FarooSpellingCorrector.edits\<close>\<close>

text \<open>
  \<^verbatim>\<open>entry[:i] + entry[i + 1:]\<close> for \<open>i\<close> in \<^verbatim>\<open>range(n)\<close>.
\<close>

definition delete_at :: "'a list \<Rightarrow> nat \<Rightarrow> 'a list" where
  "delete_at entry i = take i entry @ drop (i + 1) entry"

function edits :: "'a list \<Rightarrow> int \<Rightarrow> int \<Rightarrow> 'a Suggestion list" where
  "edits entry max_distance distance =
     (if length entry > 1 then
        foldl (\<lambda>deletes i.
                 let modified_entry = delete_at entry i;
                     delete = Suggestion_init modified_entry 0 distance
                 in if \<not> contains deletes delete then
                      (if distance < max_distance then
                         set_update (set_add deletes delete)
                           (edits modified_entry max_distance (distance + 1))
                       else set_add deletes delete)
                    else deletes)
          [] [0..<length entry]
      else [])"
  by pat_completeness auto
termination
  by (relation "measure (\<lambda>(entry, max_distance, distance). length entry)")
     (auto simp: delete_at_def)

declare edits.simps [simp del]

section \<open>The metric of wordmetric.py\<close>

text \<open>
  \<^verbatim>\<open>itertools.groupby(word)\<close> with no key: the maximal runs of equal consecutive
  characters, in order.
\<close>

function groupby :: "'a list \<Rightarrow> 'a list list" where
  "groupby [] = []"
| "groupby (x # xs) = (x # takeWhile (\<lambda>y. y = x) xs) # groupby (dropWhile (\<lambda>y. y = x) xs)"
  by pat_completeness auto
termination
  by (relation "measure length") (auto simp: le_imp_less_Suc length_dropWhile_le)

text \<open>
  \<^verbatim>\<open>squash\<close>: every run is cut to its first two characters and the runs are joined.
\<close>

definition squash :: "'a list \<Rightarrow> 'a list" where
  "squash word = concat (map (take 2) (groupby word))"

text \<open>
  \<^verbatim>\<open>str.lower()\<close> is a builtin of the language. On the code points 0 to 255 the Unicode
  case mapping sends A..Z (65..90) and the capital letters 192..222 other than the
  multiplication sign 215 to the code point 32 above, and leaves every other code point.
\<close>

definition lower_char :: "char \<Rightarrow> char" where
  "lower_char c =
     (let n = (of_char c :: nat)
      in if (65 \<le> n \<and> n \<le> 90) \<or> (192 \<le> n \<and> n \<le> 222 \<and> n \<noteq> 215)
         then char_of (n + 32) else c)"

definition lower :: "string \<Rightarrow> string" where
  "lower s = map lower_char s"

text \<open>
  \<^verbatim>\<open>LevehnsteinDistance.letter_distance\<close>. The accented vowels are the code points
  0xE1, 0xE9, 0xED, 0xF3 and 0xFA. The source returns the float \<^verbatim>\<open>0.1\<close>; the model
  computes with the rational 1/10, so sums of several near misses are exact here.
\<close>

definition letter_distance :: "char \<Rightarrow> char \<Rightarrow> rat" where
  "letter_distance a b =
     (if a = b then 0
      else if {a, b} \<in> set [{CHR 0xE1, CHR ''a''}, {CHR 0xE9, CHR ''e''}, {CHR 0xED, CHR ''i''},
                            {CHR 0xF3, CHR ''o''}, {CHR 0xFA, CHR ''u''}]
      then 1 / 10
      else 1)"

text \<open>
  The body of the inner loop of \<^verbatim>\<open>edit_distance\<close>: the cell \<open>d[i][j]\<close> of the matrix
  \<open>d\<close>, a list of rows. Every index read here is in range when \<open>1 \<le> i \<le> m\<close> and
  \<open>1 \<le> j \<le> n\<close>, which is where the loops call it.
\<close>

definition cell :: "string \<Rightarrow> string \<Rightarrow> rat list list \<Rightarrow> nat \<Rightarrow> nat \<Rightarrow> rat list list" where
  "cell s t d j i =
     (let replace_cost = d ! (i - 1) ! (j - 1) + letter_distance (s ! (i - 1)) (t ! (j - 1));
          delete_cost = d ! (i - 1) ! j + 1;
          insert_cost = d ! i ! (j - 1) + 1
      in if i \<ge> 2 \<and> j \<ge> 2 then
           let swap_cost = d ! (i - 2) ! (j - 2) + letter_distance (s ! (i - 2)) (t ! (j - 1))
                             + letter_distance (s ! (i - 1)) (t ! (j - 2)) + 1
           in d[i := (d ! i)[j := min (min (min replace_cost delete_cost) insert_cost) swap_cost]]
         else d[i := (d ! i)[j := min (min replace_cost delete_cost) insert_cost]])"

text \<open>
  The three loops of \<^verbatim>\<open>edit_distance\<close>, each a recursion over the list of indices its
  \<^verbatim>\<open>range\<close> runs through: the first column, the inner loop over \<open>i\<close> for one \<open>j\<close>, and
  the outer loop over \<open>j\<close>.
\<close>

fun first_column :: "rat list list \<Rightarrow> nat list \<Rightarrow> rat list list" where
  "first_column d [] = d"
| "first_column d (i # is) = first_column (d[i + 1 := (d ! (i + 1))[0 := d ! i ! 0 + 1]]) is"

fun inner_loop :: "string \<Rightarrow> string \<Rightarrow> rat list list \<Rightarrow> nat \<Rightarrow> nat list \<Rightarrow> rat list list" where
  "inner_loop s t d j [] = d"
| "inner_loop s t d j (i # is) = inner_loop s t (cell s t d j i) j is"

fun outer_loop :: "string \<Rightarrow> string \<Rightarrow> rat list list \<Rightarrow> nat \<Rightarrow> nat list \<Rightarrow> rat list list" where
  "outer_loop s t d m [] = d"
| "outer_loop s t d m (j # js) = outer_loop s t (inner_loop s t d j [1..<m + 1]) m js"

definition edit_distance :: "string \<Rightarrow> string \<Rightarrow> rat" where
  "edit_distance s0 t0 =
     (let s = squash (lower s0);
          t = squash (lower t0);
          m = length s;
          n = length t;
          d = replicate (m + 1) (replicate (n + 1) 0);
          d = d[0 := map of_nat [0..<n + 1]];
          d = first_column d [0..<m];
          d = outer_loop s t d m [1..<n + 1]
      in d ! m ! n)"

section \<open>The corrector of spelling.py\<close>

text \<open>
  \<^verbatim>\<open>FarooSpellingCorrector\<close>: the object's fields. \<^verbatim>\<open>dictionary\<close> and
  \<^verbatim>\<open>suggestions\<close> are \<^verbatim>\<open>defaultdict\<close>s, modelled as partial maps so that a key
  that is present with an empty list differs from a key that is absent. The metric is a
  field, as in the source; \<^verbatim>\<open>language\<close> is stored and never read, and left out.
\<close>

record 'a FarooSpellingCorrector =
  max_distance :: int
  keep_all_suggestions :: bool
  dictionary :: "'a list \<rightharpoonup> 'a Term"
  suggestions :: "'a list \<rightharpoonup> 'a Suggestion list"
  metric :: "'a list \<Rightarrow> 'a list \<Rightarrow> rat"

definition FarooSpellingCorrector_init ::
  "int \<Rightarrow> bool \<Rightarrow> ('a list \<Rightarrow> 'a list \<Rightarrow> rat) \<Rightarrow> 'a FarooSpellingCorrector" where
  "FarooSpellingCorrector_init md keep_all m =
     \<lparr>max_distance = md, keep_all_suggestions = keep_all,
      dictionary = Map.empty, suggestions = Map.empty, metric = m\<rparr>"

text \<open>
  Reading \<^verbatim>\<open>self.suggestions[key]\<close>: a \<^verbatim>\<open>defaultdict(list)\<close> stores a new empty list
  under a key that is absent and returns it. The result is the map after the read and
  the list.
\<close>

definition getitem :: "('k \<rightharpoonup> 'v list) \<Rightarrow> 'k \<Rightarrow> ('k \<rightharpoonup> 'v list) \<times> 'v list" where
  "getitem m k = (case m k of None \<Rightarrow> (m(k \<mapsto> []), []) | Some l \<Rightarrow> (m, l))"

text \<open>
  \<^verbatim>\<open>keep_lowest_distance\<close> changes the list in place; the model returns the new list.
\<close>

definition keep_lowest_distance ::
  "'a FarooSpellingCorrector \<Rightarrow> 'a Suggestion list \<Rightarrow> 'a Suggestion \<Rightarrow> 'a Suggestion list" where
  "keep_lowest_distance f suggestion_list suggestion =
     (let suggestion_list =
            (if suggestion_list \<noteq> [] \<and> \<not> keep_all_suggestions f then
               (if s_distance (hd suggestion_list) > s_distance suggestion then []
                else suggestion_list)
             else suggestion_list)
      in if keep_all_suggestions f \<or> suggestion_list = []
            \<or> s_distance (hd suggestion_list) \<ge> s_distance suggestion
         then suggestion_list @ [suggestion]
         else suggestion_list)"

text \<open>
  The loop \<^verbatim>\<open>for delete in deletes\<close> of \<^verbatim>\<open>add_entry\<close>: its body, and the loop over
  the elements of the set. The body reads \<^verbatim>\<open>self.suggestions[delete.term]\<close> (the map
  after the read is the first component of \<open>getitem\<close>, the list the second), and
  \<^verbatim>\<open>keep_lowest_distance\<close> changes that list in place: the key then holds the new list.
\<close>

definition add_delete ::
  "'a FarooSpellingCorrector \<Rightarrow> 'a list \<Rightarrow> 'a Suggestion \<Rightarrow> 'a FarooSpellingCorrector" where
  "add_delete f entry delete =
     f\<lparr>suggestions :=
         (fst (getitem (suggestions f) (s_term delete)))
           (s_term delete \<mapsto>
              keep_lowest_distance f (snd (getitem (suggestions f) (s_term delete)))
                (Suggestion_init entry 0 (s_distance delete)))\<rparr>"

fun add_deletes ::
  "'a FarooSpellingCorrector \<Rightarrow> 'a list \<Rightarrow> 'a Suggestion list \<Rightarrow> 'a FarooSpellingCorrector" where
  "add_deletes f entry [] = f"
| "add_deletes f entry (delete # deletes) = add_deletes (add_delete f entry delete) entry deletes"

text \<open>
  \<^verbatim>\<open>add_entry\<close> returns whether the entry is new; the model returns the corrector
  after the call as well. \<^verbatim>\<open>self.dictionary[entry]\<close> on the \<^verbatim>\<open>defaultdict\<close> stores
  \<^verbatim>\<open>None\<close> under a new entry, and the next statement replaces it by the new Term.
\<close>

definition add_entry ::
  "'a FarooSpellingCorrector \<Rightarrow> 'a list \<Rightarrow> 'a FarooSpellingCorrector \<times> bool" where
  "add_entry f entry =
     (case dictionary f entry of
        None \<Rightarrow>
          let trm = \<lparr>t_term = entry, t_count = 0\<rparr>;
              f = f\<lparr>dictionary := (dictionary f)(entry \<mapsto> trm)\<rparr>;
              deletes = edits entry (max_distance f) 1;
              f = f\<lparr>suggestions := (suggestions f)(entry \<mapsto> [Suggestion_init entry 0 0])\<rparr>;
              f = add_deletes f entry deletes
          in (f\<lparr>dictionary := (dictionary f)(entry \<mapsto> trm\<lparr>t_count := t_count trm + 1\<rparr>)\<rparr>, True)
      | Some trm \<Rightarrow>
          (f\<lparr>dictionary := (dictionary f)(entry \<mapsto> trm\<lparr>t_count := t_count trm + 1\<rparr>)\<rparr>, False))"

text \<open>
  \<^verbatim>\<open>add_corpus\<close>: the body of its loop on the corrector and the counter, the loop,
  and the call with the counter at 0.
\<close>

definition add_corpus_step ::
  "'a FarooSpellingCorrector \<times> int \<Rightarrow> 'a list \<Rightarrow> 'a FarooSpellingCorrector \<times> int" where
  "add_corpus_step st word =
     (let (f, new) = add_entry (fst st) word
      in (f, if new then snd st + 1 else snd st))"

fun add_corpus_loop ::
  "'a FarooSpellingCorrector \<times> int \<Rightarrow> 'a list list \<Rightarrow> 'a FarooSpellingCorrector \<times> int" where
  "add_corpus_loop st [] = st"
| "add_corpus_loop st (word # corpus) = add_corpus_loop (add_corpus_step st word) corpus"

definition add_corpus ::
  "'a FarooSpellingCorrector \<Rightarrow> 'a list list \<Rightarrow> 'a FarooSpellingCorrector \<times> int" where
  "add_corpus f corpus = add_corpus_loop (f, 0) corpus"

subsection \<open>\<^verbatim>\<open>suggest\<close> and \<^verbatim>\<open>correct\<close>\<close>

text \<open>
  The distance \<^verbatim>\<open>suggest\<close> gives to one indexed suggestion of the popped candidate:
  the stored one when the terms are equal, and otherwise
  \<^verbatim>\<open>self.distance(candidate.term, word)\<close>.
\<close>

definition candidate_distance ::
  "'a FarooSpellingCorrector \<Rightarrow> 'a list \<Rightarrow> 'a Suggestion \<Rightarrow> 'a Suggestion \<Rightarrow> rat" where
  "candidate_distance f word candidate candidate_suggestion =
     (if s_term candidate_suggestion \<noteq> s_term candidate
      then metric f (s_term candidate) word
      else of_int (s_distance candidate_suggestion))"

text \<open>
  One pass of the loop \<^verbatim>\<open>for candidate_suggestion in candidate_suggestions\<close>.
  \<^verbatim>\<open>next(iter(suggestions))\<close> is the first element of the set in its iteration order.
\<close>

definition accept ::
  "'a FarooSpellingCorrector \<Rightarrow> 'a list \<Rightarrow> 'a Suggestion \<Rightarrow> 'a Suggestion list
     \<Rightarrow> 'a Suggestion \<Rightarrow> 'a Suggestion list" where
  "accept f word candidate suggs candidate_suggestion =
     (let distance = candidate_distance f word candidate candidate_suggestion
      in if distance \<le> of_int (max_distance f) then
           (if suggs \<noteq> [] \<and> \<not> keep_all_suggestions f then
              (let some_suggestion = hd suggs
               in if of_int (s_distance some_suggestion) < distance then suggs
                  else if of_int (s_distance some_suggestion) > distance
                       then set_add [] candidate_suggestion
                       else set_add suggs candidate_suggestion)
            else set_add suggs candidate_suggestion)
         else suggs)"

fun scan ::
  "'a FarooSpellingCorrector \<Rightarrow> 'a list \<Rightarrow> 'a Suggestion \<Rightarrow> 'a Suggestion list
     \<Rightarrow> 'a Suggestion list \<Rightarrow> 'a Suggestion list" where
  "scan f word candidate suggs [] = suggs"
| "scan f word candidate suggs (candidate_suggestion # rest) =
     scan f word candidate (accept f word candidate suggs candidate_suggestion) rest"

text \<open>
  The loop \<^verbatim>\<open>for candidate_edit in candidate_edits\<close>: the queue and the seen set.
\<close>

fun enqueue ::
  "'a Suggestion list \<Rightarrow> 'a Suggestion list \<Rightarrow> 'a Suggestion list
     \<Rightarrow> 'a Suggestion list \<times> 'a Suggestion list" where
  "enqueue candidates seen [] = (candidates, seen)"
| "enqueue candidates seen (candidate_edit # rest) =
     (if \<not> contains seen candidate_edit
      then enqueue (candidates @ [candidate_edit]) (set_add seen candidate_edit) rest
      else enqueue candidates seen rest)"

text \<open>
  The body of the \<^verbatim>\<open>while\<close> loop for the popped \<open>candidate\<close>, the rest of the queue
  and the seen set. The state is the corrector (reading its index can store a key), the
  accepted suggestions, the queue and the seen set.
\<close>

definition loop_body ::
  "'a list \<Rightarrow> 'a FarooSpellingCorrector \<Rightarrow> 'a Suggestion list \<Rightarrow> 'a Suggestion
     \<Rightarrow> 'a Suggestion list \<Rightarrow> 'a Suggestion list
     \<Rightarrow> 'a FarooSpellingCorrector \<times> 'a Suggestion list \<times> 'a Suggestion list \<times> 'a Suggestion list" where
  "loop_body word f suggs candidate candidates seen =
     (let (sm, candidate_suggestions) = getitem (suggestions f) (s_term candidate);
          f = f\<lparr>suggestions := sm\<rparr>;
          suggs = scan f word candidate suggs candidate_suggestions;
          (candidates, seen) =
            (if s_distance candidate < max_distance f
             then enqueue candidates seen (edits (s_term candidate) 1 1)
             else (candidates, seen))
      in (f, suggs, candidates, seen))"

text \<open>
  The length of the term of a queued candidate: what the termination argument of the
  search measures.
\<close>

definition term_length :: "'a Suggestion \<Rightarrow> nat" where
  "term_length s = length (s_term s)"

lemma foldl_invariant:
  assumes "P a" and "\<And>a x. x \<in> set xs \<Longrightarrow> P a \<Longrightarrow> P (f a x)"
  shows "P (foldl f a xs)"
  using assms by (induction xs arbitrary: a) auto

lemma set_set_add: "set (set_add xs s) \<subseteq> insert s (set xs)"
  by (auto simp: set_add_def)

lemma set_set_update: "set (set_update xs ys) \<subseteq> set xs \<union> set ys"
  unfolding set_update_def
proof (induction ys arbitrary: xs)
  case Nil
  show ?case by simp
next
  case (Cons y ys)
  have "set (foldl set_add (set_add xs y) ys) \<subseteq> set (set_add xs y) \<union> set ys"
    by (rule Cons.IH)
  also have "\<dots> \<subseteq> set xs \<union> set (y # ys)"
    using set_set_add [of xs y] by auto
  finally show ?case by simp
qed

lemma length_delete_at: "i < length entry \<Longrightarrow> length (delete_at entry i) = length entry - 1"
  by (auto simp: delete_at_def)

lemma edits_term_shorter:
  "(s :: 'a Suggestion) \<in> set (edits entry md d) \<Longrightarrow> length (s_term s) < length entry"
proof (induction entry md d arbitrary: s rule: edits.induct)
  case (1 entry max_distance distance)
  let ?P = "\<lambda>deletes :: 'a Suggestion list. \<forall>s \<in> set deletes. length (s_term s) < length entry"
  let ?f = "\<lambda>deletes i.
                 let modified_entry = delete_at entry i;
                     delete = Suggestion_init modified_entry 0 distance
                 in if \<not> contains deletes delete then
                      (if distance < max_distance then
                         set_update (set_add deletes delete)
                           (edits modified_entry max_distance (distance + 1))
                       else set_add deletes delete)
                    else deletes"
  show ?case
  proof (cases "1 < length entry")
    case False
    with "1.prems" show ?thesis by (simp add: edits.simps [of entry])
  next
    case True
    have "?P (foldl ?f [] [0..<length entry])"
    proof (rule foldl_invariant)
      show "?P []" by simp
    next
      fix a i
      assume i: "i \<in> set [0..<length entry]" and a: "?P a"
      let ?m = "delete_at entry i"
      let ?del = "Suggestion_init ?m 0 distance"
      have len: "length ?m < length entry"
        using i True by (simp add: length_delete_at)
      have del: "length (s_term ?del) < length entry"
        using len by (simp add: Suggestion_init_def)
      have add: "?P (set_add a ?del)"
        using a del set_set_add [of a ?del] by auto
      show "?P (?f a i)"
      proof (cases "contains a ?del")
        case True
        then show ?thesis using a by (simp add: Let_def)
      next
        case nc: False
        show ?thesis
        proof (cases "distance < max_distance")
          case False
          then show ?thesis using nc add by (simp add: Let_def)
        next
          case lt: True
          have rec: "\<forall>s \<in> set (edits ?m max_distance (distance + 1)). length (s_term s) < length entry"
            using "1.IH" [OF True i refl refl nc lt] len by fastforce
          have "?P (set_update (set_add a ?del) (edits ?m max_distance (distance + 1)))"
            using add rec set_set_update [of "set_add a ?del" "edits ?m max_distance (distance + 1)"]
            by blast
          then show ?thesis using nc lt by (simp add: Let_def)
        qed
      qed
    qed
    with "1.prems" True show ?thesis by (simp add: edits.simps [of entry])
  qed
qed

lemma enqueue_lengths:
  "enqueue cs seen es = (cs', seen') \<Longrightarrow>
     \<exists>K. mset (map term_length cs') = mset (map term_length cs) + K
        \<and> (\<forall>k \<in># K. \<exists>e \<in> set es. k = term_length e)"
proof (induction es arbitrary: cs seen)
  case Nil
  then show ?case by (intro exI [of _ "{#}"]) simp
next
  case (Cons e es)
  show ?case
  proof (cases "contains seen e")
    case True
    with Cons.prems have "enqueue cs seen es = (cs', seen')" by simp
    from Cons.IH [OF this] show ?thesis by auto
  next
    case False
    with Cons.prems have "enqueue (cs @ [e]) (set_add seen e) es = (cs', seen')" by simp
    from Cons.IH [OF this] obtain K where
      K: "mset (map term_length cs') = mset (map term_length (cs @ [e])) + K"
         "\<forall>k \<in># K. \<exists>e \<in> set es. k = term_length e" by blast
    show ?thesis
      by (intro exI [of _ "add_mset (term_length e) K"]) (use K in auto)
  qed
qed

lemma loop_body_lengths:
  assumes "loop_body word f suggs c cs seen = (f', suggs', cs', seen')"
  shows "\<exists>K. mset (map term_length cs') = mset (map term_length cs) + K
            \<and> (\<forall>k \<in># K. k < term_length c)"
proof (cases "s_distance c < max_distance f")
  case False
  with assms have "cs' = cs"
    by (auto simp: loop_body_def Let_def split: prod.splits)
  then show ?thesis by (intro exI [of _ "{#}"]) simp
next
  case True
  with assms have "enqueue cs seen (edits (s_term c) 1 1) = (cs', seen')"
    by (auto simp: loop_body_def Let_def split: prod.splits)
  from enqueue_lengths [OF this] obtain K where
    K: "mset (map term_length cs') = mset (map term_length cs) + K"
       "\<forall>k \<in># K. \<exists>e \<in> set (edits (s_term c) 1 1). k = term_length e" by blast
  from K(2) have "\<forall>k \<in># K. k < term_length c"
    by (auto simp: term_length_def dest: edits_term_shorter)
  with K(1) show ?thesis by blast
qed

text \<open>
  The \<^verbatim>\<open>while len(candidates) > 0\<close> loop. Each pass removes the popped candidate from
  the queue and appends only terms that are shorter than it, so the multiset of the
  lengths of the queued terms decreases.
\<close>

function suggest_loop ::
  "'a list \<Rightarrow> 'a FarooSpellingCorrector \<times> 'a Suggestion list \<times> 'a Suggestion list \<times> 'a Suggestion list
     \<Rightarrow> 'a FarooSpellingCorrector \<times> 'a Suggestion list \<times> 'a Suggestion list \<times> 'a Suggestion list" where
  "suggest_loop word (f, suggs, [], seen) = (f, suggs, [], seen)"
| "suggest_loop word (f, suggs, candidate # candidates, seen) =
     suggest_loop word (loop_body word f suggs candidate candidates seen)"
  by pat_completeness auto
termination
proof (relation "inv_image (mult {(a, b). a < (b::nat)})
                   (\<lambda>(word, f, suggs, candidates, seen). mset (map term_length candidates))")
  show "wf (inv_image (mult {(a, b). a < (b::nat)})
             (\<lambda>(word, f, suggs, candidates, seen). mset (map term_length candidates)))"
    by (intro wf_inv_image wf_mult) (rule wf_less)
next
  fix word :: "'a list" and f suggs candidate candidates seen
  obtain f' suggs' cs' seen' where
    lb: "loop_body word f suggs candidate candidates seen = (f', suggs', cs', seen')"
    by (cases "loop_body word f suggs candidate candidates seen") auto
  from loop_body_lengths [OF lb] obtain K where
    K: "mset (map term_length cs') = mset (map term_length candidates) + K"
       "\<forall>k \<in># K. k < term_length candidate" by blast
  have "(mset (map term_length candidates) + K,
         mset (map term_length candidates) + {#term_length candidate#})
          \<in> mult {(a, b). a < (b::nat)}"
    by (rule one_step_implies_mult) (use K(2) in auto)
  then show "((word, loop_body word f suggs candidate candidates seen),
              (word, f, suggs, candidate # candidates, seen))
             \<in> inv_image (mult {(a, b). a < (b::nat)})
                 (\<lambda>(word, f, suggs, candidates, seen). mset (map term_length candidates))"
    using lb K(1) by simp
qed

declare suggest_loop.simps [simp del]

text \<open>
  \<^verbatim>\<open>suggest\<close>: the queue starts with \<^verbatim>\<open>Suggestion(word, 1, 0)\<close>, which is also the only
  element of \<^verbatim>\<open>seen\<close>. \<^verbatim>\<open>sorted\<close> is stable; \<open>sort_key\<close> is as well, and pairs are
  compared lexicographically, as Python's tuples are. The model returns the corrector
  after the call together with the list.
\<close>

definition suggest ::
  "'a FarooSpellingCorrector \<Rightarrow> 'a list \<Rightarrow> 'a FarooSpellingCorrector \<times> 'a Suggestion list" where
  "suggest f word =
     (case suggest_loop word (f, [], [Suggestion_init word 1 0], [Suggestion_init word 1 0]) of
        (f, suggs, candidates, seen) \<Rightarrow> (f, sort_key (\<lambda>s. (s_distance s, s_count s)) suggs))"

text \<open>
  \<^verbatim>\<open>correct\<close>: \<^verbatim>\<open>suggestions[0] if suggestions else None\<close>.
\<close>

definition correct ::
  "'a FarooSpellingCorrector \<Rightarrow> 'a list \<Rightarrow> 'a FarooSpellingCorrector \<times> 'a Suggestion option" where
  "correct f word =
     (let (f, suggs) = suggest f word
      in (f, case suggs of [] \<Rightarrow> None | s # _ \<Rightarrow> Some s))"

section \<open>Notions of the statements\<close>

subsection \<open>The search, pass by pass, and the correctors that can arise\<close>

text \<open>
  One pass of the \<^verbatim>\<open>while\<close> loop as a function on the loop state; a state with an empty
  queue is left as it is (the loop has ended).
\<close>

definition while_step ::
  "'a list \<Rightarrow> 'a FarooSpellingCorrector \<times> 'a Suggestion list \<times> 'a Suggestion list \<times> 'a Suggestion list
     \<Rightarrow> 'a FarooSpellingCorrector \<times> 'a Suggestion list \<times> 'a Suggestion list \<times> 'a Suggestion list" where
  "while_step word st =
     (case st of
        (f, suggs, [], seen) \<Rightarrow> st
      | (f, suggs, candidate # candidates, seen) \<Rightarrow> loop_body word f suggs candidate candidates seen)"

text \<open>
  The correctors that calls of \<^verbatim>\<open>add_entry\<close> and \<^verbatim>\<open>suggest\<close> (which \<^verbatim>\<open>add_corpus\<close>
  and \<^verbatim>\<open>correct\<close> are made of) can produce from a new one.
\<close>

inductive reachable :: "'a FarooSpellingCorrector \<Rightarrow> bool" where
  reachable_init: "reachable (FarooSpellingCorrector_init md keep_all m)"
| reachable_add_entry: "reachable f \<Longrightarrow> reachable (fst (add_entry f entry))"
| reachable_suggest: "reachable f \<Longrightarrow> reachable (fst (suggest f word))"

text \<open>
  Every Suggestion stored in a list of the index has count 0.
\<close>

definition stored_counts_zero :: "'a FarooSpellingCorrector \<Rightarrow> bool" where
  "stored_counts_zero f = (\<forall>k l. suggestions f k = Some l \<longrightarrow> (\<forall>s \<in> set l. s_count s = 0))"

subsection \<open>Deletion variants and their producers\<close>

text \<open>
  The pairs of term and distance of a list of Suggestions, and the pairs that the
  generator is to return for \<open>entry\<close> when it is called at the distance \<open>d0\<close>: every
  non-empty string \<open>v\<close> that is left of \<open>entry\<close> after deleting one or more characters
  (a proper subsequence of \<open>entry\<close>), with \<open>d0\<close> for one deleted character and one
  more for each further character, as long as this stays within \<open>md\<close>.
\<close>

definition pairs :: "'a Suggestion list \<Rightarrow> ('a list \<times> int) set" where
  "pairs xs = (\<lambda>s. (s_term s, s_distance s)) ` set xs"

definition deletions :: "'a list \<Rightarrow> int \<Rightarrow> int \<Rightarrow> ('a list \<times> int) set" where
  "deletions entry md d0 =
     {(v, d). v \<noteq> [] \<and> subseq v entry \<and> length v < length entry
              \<and> d = d0 + int (length entry - length v) - 1 \<and> d \<le> md}"

text \<open>
  The list that reading \<^verbatim>\<open>self.suggestions[v]\<close> gives (empty for a key that is absent).
\<close>

definition stored :: "'a FarooSpellingCorrector \<Rightarrow> 'a list \<Rightarrow> 'a Suggestion list" where
  "stored f v = snd (getitem (suggestions f) v)"

text \<open>
  When a dictionary word \<open>w\<close> produces the variant \<open>v\<close> at the deletion distance \<open>d\<close>: the
  word produces itself at 0, and it produces at \<open>d\<close>, from 1 to \<open>md\<close>, every string that is
  left after deleting \<open>d\<close> of its characters, the empty string included.
\<close>

definition produces :: "int \<Rightarrow> 'a list \<Rightarrow> 'a list \<Rightarrow> int \<Rightarrow> bool" where
  "produces md w v d =
     ((v = w \<and> d = 0)
      \<or> (1 \<le> d \<and> d \<le> md \<and> subseq v w \<and> int (length w) = int (length v) + d))"

text \<open>
  What \<^verbatim>\<open>add_entry\<close> puts into the index for a new word \<open>w\<close>: the word itself at 0 under
  its own key, and the word under every term of the generator, at the distance the
  generator gives the term (the generator does not return the empty string). The nearest
  records of a key \<open>v\<close> are those of the words of \<open>W\<close> at the least distance recorded for
  \<open>v\<close>; they are what the index is to hold under \<open>v\<close> once the words of \<open>W\<close> are added.
\<close>

definition records :: "int \<Rightarrow> 'a list \<Rightarrow> 'a list \<Rightarrow> int \<Rightarrow> bool" where
  "records md w v d = ((v = w \<and> d = 0) \<or> (v, d) \<in> deletions w md 1)"

definition nearest_records :: "int \<Rightarrow> 'a list set \<Rightarrow> 'a list \<Rightarrow> ('a list \<times> int) set" where
  "nearest_records md W v =
     {(w, d). w \<in> W \<and> records md w v d \<and> (\<forall>w' \<in> W. \<forall>d'. records md w' v d' \<longrightarrow> d \<le> d')}"

definition index_ok :: "int \<Rightarrow> 'a FarooSpellingCorrector \<Rightarrow> 'a list set \<Rightarrow> bool" where
  "index_ok md f W =
     (\<not> keep_all_suggestions f \<and> max_distance f = md \<and> dom (dictionary f) = W
      \<and> (\<forall>v. pairs (stored f v) = nearest_records md W v \<and> distinct (map s_term (stored f v))))"

subsection \<open>The terms a query probes\<close>




subsection \<open>The correctors of the examples\<close>

text \<open>
  The corrector of the doctests of \<^verbatim>\<open>suggest\<close> and \<^verbatim>\<open>correct\<close>: the default metric,
  \<^verbatim>\<open>max_distance=2\<close>, and the corpus \<^verbatim>\<open>["hello", "hell"]\<close> added by \<^verbatim>\<open>add_corpus\<close>.
\<close>

definition doctest_corrector :: "bool \<Rightarrow> char FarooSpellingCorrector" where
  "doctest_corrector keep_all =
     fst (add_corpus (FarooSpellingCorrector_init 2 keep_all edit_distance) [''hello'', ''hell''])"

text \<open>
  The corpus \<^verbatim>\<open>["abcde", "xa", "xa"]\<close> with every suggestion kept, and the query
  \<^verbatim>\<open>abc\<close>.
\<close>

definition ranking_corrector :: "char FarooSpellingCorrector" where
  "ranking_corrector =
     fst (add_corpus (FarooSpellingCorrector_init 2 True edit_distance) [''abcde'', ''xa'', ''xa''])"

text \<open>
  The corpus \<^verbatim>\<open>["aaaa", "aab", "aab"]\<close> with every suggestion kept, and the query
  \<^verbatim>\<open>aa\<close>.
\<close>

definition squash_corrector :: "char FarooSpellingCorrector" where
  "squash_corrector =
     fst (add_corpus (FarooSpellingCorrector_init 2 True edit_distance) [''aaaa'', ''aab'', ''aab''])"

text \<open>
  The corpus \<^verbatim>\<open>["abzw"]\<close> with the defaults, and the query \<^verbatim>\<open>xyab\<close>.
\<close>

definition distant_corrector :: "char FarooSpellingCorrector" where
  "distant_corrector =
     fst (add_corpus (FarooSpellingCorrector_init 2 False edit_distance) [''abzw''])"

section \<open>The documented values of the metric\<close>

lemma squash_lower_wooo: "squash (lower ''woooooooooo'') = ''woo''"
  by code_simp

lemma squash_lower_woo: "squash (lower ''woo'') = ''woo''"
  by code_simp

lemma edit_distance_hello_HELLO: "edit_distance ''hello'' ''HELLO'' = 0"
  by code_simp

lemma edit_distance_hello_ell: "edit_distance ''hello'' ''ell'' = 2"
  by code_simp

lemma edit_distance_penguin_pencil: "edit_distance ''penguin'' ''pencil'' = 3"
  by code_simp

lemma edit_distance_hallo_hell: "edit_distance ''hallo'' ''hell'' = 2"
  by code_simp

lemma edit_distance_AREA_accents:
  "edit_distance [CHR 0xC1, CHR ''R'', CHR ''E'', CHR ''A''] [CHR 0xE1, CHR ''r'', CHR ''e'', CHR ''a''] = 0"
  by code_simp

lemma edit_distance_AREA_area:
  "edit_distance [CHR 0xC1, CHR ''R'', CHR ''E'', CHR ''A''] ''area'' = 1 / 10"
  by code_simp

lemma edit_distance_wooo: "edit_distance ''woooooooooo'' t = edit_distance ''woo'' t"
  unfolding edit_distance_def squash_lower_wooo squash_lower_woo by (rule refl)

text \<open>
  C9. The base metric has the documented values: \<^verbatim>\<open>edit_distance("hello", "HELLO") = 0\<close>,
  \<^verbatim>\<open>edit_distance("hello", "ell") = 2\<close>, \<^verbatim>\<open>edit_distance("penguin", "pencil") = 3\<close>,
  \<^verbatim>\<open>edit_distance("hallo", "hell") = 2\<close>; with the capital A acute (code point 0xC1) in
  the first word and the small a acute (0xE1) in the second the distance is 0, and against
  the unaccented \<^verbatim>\<open>area\<close> it is the rational 1/10; and for every string \<open>t\<close> the word
  \<^verbatim>\<open>woooooooooo\<close> has the distance to \<open>t\<close> that \<^verbatim>\<open>woo\<close> has.
\<close>

theorem edit_distance_documented_values:
  "edit_distance ''hello'' ''HELLO'' = 0
   \<and> edit_distance ''hello'' ''ell'' = 2
   \<and> edit_distance ''penguin'' ''pencil'' = 3
   \<and> edit_distance ''hallo'' ''hell'' = 2
   \<and> edit_distance [CHR 0xC1, CHR ''R'', CHR ''E'', CHR ''A''] [CHR 0xE1, CHR ''r'', CHR ''e'', CHR ''a''] = 0
   \<and> edit_distance [CHR 0xC1, CHR ''R'', CHR ''E'', CHR ''A''] ''area'' = 1 / 10
   \<and> (\<forall>t. edit_distance ''woooooooooo'' t = edit_distance ''woo'' t)"
  using edit_distance_hello_HELLO edit_distance_hello_ell edit_distance_penguin_pencil
    edit_distance_hallo_hell edit_distance_AREA_accents edit_distance_AREA_area edit_distance_wooo
  by blast

section \<open>The documented runs\<close>

lemma suggest_hel_keep_all:
  "snd (suggest (doctest_corrector True) ''hel'')
     = [Suggestion_init ''hell'' 0 1, Suggestion_init ''hello'' 0 2]"
  by code_simp

lemma suggest_hel:
  "snd (suggest (doctest_corrector False) ''hel'') = [Suggestion_init ''hell'' 0 1]"
  by code_simp

lemma suggest_help:
  "snd (suggest (doctest_corrector False) ''help'') = [Suggestion_init ''hell'' 0 1]"
  by code_simp

lemma suggest_hallo:
  "snd (suggest (doctest_corrector False) ''hallo'') = [Suggestion_init ''hello'' 0 1]"
  by code_simp

lemma correct_hel:
  "snd (correct (doctest_corrector False) ''hel'') = Some (Suggestion_init ''hell'' 0 1)"
  by code_simp

text \<open>
  C7. On the corpus \<^verbatim>\<open>["hello", "hell"]\<close> with \<^verbatim>\<open>max_distance=2\<close>: with
  \<^verbatim>\<open>keep_all_suggestions\<close> enabled \<^verbatim>\<open>suggest("hel")\<close> returns exactly \<^verbatim>\<open>hell\<close> (distance 1)
  then \<^verbatim>\<open>hello\<close> (distance 2); with it disabled \<^verbatim>\<open>suggest("hel")\<close> and
  \<^verbatim>\<open>suggest("help")\<close> return exactly \<^verbatim>\<open>[hell]\<close>, \<^verbatim>\<open>suggest("hallo")\<close> returns exactly
  \<^verbatim>\<open>[hello]\<close>, and \<^verbatim>\<open>correct("hel")\<close> returns \<^verbatim>\<open>hell\<close>.
\<close>

theorem doctest_runs:
  "snd (suggest (doctest_corrector True) ''hel'')
     = [Suggestion_init ''hell'' 0 1, Suggestion_init ''hello'' 0 2]
   \<and> snd (suggest (doctest_corrector False) ''hel'') = [Suggestion_init ''hell'' 0 1]
   \<and> snd (suggest (doctest_corrector False) ''help'') = [Suggestion_init ''hell'' 0 1]
   \<and> snd (suggest (doctest_corrector False) ''hallo'') = [Suggestion_init ''hello'' 0 1]
   \<and> snd (correct (doctest_corrector False) ''hel'') = Some (Suggestion_init ''hell'' 0 1)"
  using suggest_hel_keep_all suggest_hel suggest_help suggest_hallo correct_hel
  by blast

section \<open>The search loop: one pass, and what every pass keeps\<close>

lemma suggest_loop_invariant:
  assumes "I st"
    and "\<And>f suggs c cs seen. I (f, suggs, c # cs, seen) \<Longrightarrow> I (loop_body word f suggs c cs seen)"
  shows "I (suggest_loop word st)"
  using assms
proof (induction word st rule: suggest_loop.induct)
  case (1 word f suggs seen)
  then show ?case by (simp add: suggest_loop.simps)
next
  case (2 word f suggs candidate candidates seen)
  have "I (loop_body word f suggs candidate candidates seen)"
    using "2.prems"(1) by (rule "2.prems"(2))
  then have "I (suggest_loop word (loop_body word f suggs candidate candidates seen))"
    using "2.prems"(2) by (rule "2.IH")
  then show ?case
    by (simp add: suggest_loop.simps)
qed

lemma suggest_loop_funpow:
  "\<exists>n. fst (snd (snd ((while_step word ^^ n) st))) = []
       \<and> suggest_loop word st = (while_step word ^^ n) st"
proof (induction word st rule: suggest_loop.induct)
  case (1 word f suggs seen)
  show ?case by (intro exI [of _ 0]) (simp add: suggest_loop.simps)
next
  case (2 word f suggs candidate candidates seen)
  let ?st = "(f, suggs, candidate # candidates, seen)"
  from "2.IH" obtain n where
    n: "fst (snd (snd ((while_step word ^^ n) (loop_body word f suggs candidate candidates seen)))) = []"
       "suggest_loop word (loop_body word f suggs candidate candidates seen)
          = (while_step word ^^ n) (loop_body word f suggs candidate candidates seen)"
    by blast
  have step: "while_step word ?st = loop_body word f suggs candidate candidates seen"
    by (simp add: while_step_def)
  have eq: "(while_step word ^^ Suc n) ?st
              = (while_step word ^^ n) (loop_body word f suggs candidate candidates seen)"
    by (simp only: funpow_Suc_right o_apply step)
  have sl: "suggest_loop word ?st
              = suggest_loop word (loop_body word f suggs candidate candidates seen)"
    by (simp only: suggest_loop.simps)
  show ?case
  proof (intro exI [of _ "Suc n"] conjI)
    show "fst (snd (snd ((while_step word ^^ Suc n) ?st))) = []"
      unfolding eq by (rule n(1))
    show "suggest_loop word ?st = (while_step word ^^ Suc n) ?st"
      unfolding eq sl by (rule n(2))
  qed
qed

lemma getitem_snd: "snd (getitem m k) = (case m k of None \<Rightarrow> [] | Some l \<Rightarrow> l)"
  by (simp add: getitem_def split: option.splits)

lemma getitem_fst: "fst (getitem m k) = (case m k of None \<Rightarrow> m(k \<mapsto> []) | Some l \<Rightarrow> m)"
  by (simp add: getitem_def split: option.splits)

lemma getitem_fst_apply:
  "fst (getitem m k) k' = m k' \<or> (m k' = None \<and> fst (getitem m k) k' = Some [])"
  by (simp add: getitem_fst split: option.splits)

lemma getitem_snd_stored: "s \<in> set (snd (getitem m k)) \<Longrightarrow> \<exists>l. m k = Some l \<and> s \<in> set l"
  by (cases "m k") (auto simp: getitem_snd)

lemma set_accept:
  "set (accept f word c suggs s) \<subseteq> insert s (set suggs)"
  using set_set_add [of suggs s] set_set_add [of "[]" s]
  by (auto simp: accept_def Let_def)

lemma set_scan: "set (scan f word c suggs l) \<subseteq> set suggs \<union> set l"
proof (induction l arbitrary: suggs)
  case Nil
  show ?case by simp
next
  case (Cons s l)
  have "set (scan f word c (accept f word c suggs s) l) \<subseteq> set (accept f word c suggs s) \<union> set l"
    by (rule Cons.IH)
  also have "\<dots> \<subseteq> set suggs \<union> set (s # l)"
    using set_accept [of f word c suggs s] by auto
  finally show ?case by simp
qed

lemma loop_body_corrector:
  "fst (loop_body word f suggs c cs seen)
     = f\<lparr>suggestions := fst (getitem (suggestions f) (s_term c))\<rparr>"
  by (simp add: loop_body_def Let_def split: prod.splits)

lemma loop_body_suggs:
  "fst (snd (loop_body word f suggs c cs seen))
     = scan (f\<lparr>suggestions := fst (getitem (suggestions f) (s_term c))\<rparr>) word c suggs
         (snd (getitem (suggestions f) (s_term c)))"
  by (simp add: loop_body_def Let_def split: prod.splits)

lemma loop_body_suggs_subset:
  "set (fst (snd (loop_body word f suggs c cs seen)))
     \<subseteq> set suggs \<union> set (snd (getitem (suggestions f) (s_term c)))"
  unfolding loop_body_suggs by (rule set_scan)

lemma suggest_fst:
  "fst (suggest f word)
     = fst (suggest_loop word (f, [], [Suggestion_init word 1 0], [Suggestion_init word 1 0]))"
  by (simp add: suggest_def split: prod.splits)

lemma suggest_snd:
  "snd (suggest f word)
     = sort_key (\<lambda>s. (s_distance s, s_count s))
         (fst (snd (suggest_loop word (f, [], [Suggestion_init word 1 0], [Suggestion_init word 1 0]))))"
  by (simp add: suggest_def split: prod.splits)


lemma correct_snd:
  "snd (correct f word) = (case snd (suggest f word) of [] \<Rightarrow> None | s # _ \<Rightarrow> Some s)"
  by (simp add: correct_def split: prod.splits)

lemma edits_1_terms:
  assumes "(s :: 'a Suggestion) \<in> set (edits c 1 1)"
  shows "\<exists>i < length c. s_term s = delete_at c i"
proof (cases "1 < length c")
  case False
  with assms show ?thesis by (simp add: edits.simps [of c])
next
  case True
  let ?P = "\<lambda>deletes :: 'a Suggestion list. \<forall>s \<in> set deletes. \<exists>i < length c. s_term s = delete_at c i"
  let ?f = "\<lambda>deletes i. if \<not> contains deletes (Suggestion_init (delete_at c i) 0 1)
                           then set_add deletes (Suggestion_init (delete_at c i) 0 1) else deletes"
  have "?P (foldl ?f [] [0..<length c])"
  proof (rule foldl_invariant)
    show "?P []" by simp
  next
    fix a i
    assume "i \<in> set [0..<length c]" and "?P a"
    then show "?P (?f a i)"
      by (auto simp: set_add_def Suggestion_init_def)
  qed
  moreover have "edits c 1 1 = foldl ?f [] [0..<length c]"
    using True by (simp add: edits.simps [of c] Let_def cong: if_cong)
  ultimately show ?thesis using assms by simp
qed

lemma subseq_delete_at: "subseq (delete_at c i) c"
proof -
  have "subseq (drop (i + 1) c) (drop i c)"
    using suffix_drop [of 1 "drop i c"] by (auto intro: suffix_imp_subseq)
  then have "subseq (take i c @ drop (i + 1) c) (take i c @ drop i c)"
    by (simp only: subseq_append')
  then show ?thesis by (simp add: delete_at_def)
qed

lemma set_enqueue: "set (fst (enqueue cs seen es)) \<subseteq> set cs \<union> set es"
proof (induction es arbitrary: cs seen)
  case Nil
  show ?case by simp
next
  case (Cons e es)
  show ?case
    using Cons.IH [of "cs @ [e]" "set_add seen e"] Cons.IH [of cs seen]
    by (cases "contains seen e") auto
qed

lemma loop_body_queue:
  "set (fst (snd (snd (loop_body word f suggs c cs seen)))) \<subseteq> set cs \<union> set (edits (s_term c) 1 1)"
  using set_enqueue [of cs seen "edits (s_term c) 1 1"]
  by (auto simp: loop_body_def Let_def split: prod.splits if_splits)

text \<open>
  What the loop does to the corrector and where its results come from: only the index
  changes, a key of the index keeps its list, a key that was absent stays absent or gets
  the empty list, and every accepted suggestion was accepted before or is stored in the
  index the loop started with, under the term of a candidate. \<open>P\<close> is any property of
  terms that the queued terms have and that deleting one character keeps.
\<close>

lemma suggest_loop_frame:
  fixes f0 :: "'a FarooSpellingCorrector" and suggs0 cs0 :: "'a Suggestion list"
  assumes P0: "\<forall>c \<in> set cs0. P (s_term c)"
    and Pdel: "\<And>c i. P c \<Longrightarrow> P (delete_at c i)"
  shows "fst (suggest_loop word (f0, suggs0, cs0, seen0))
           = f0\<lparr>suggestions := suggestions (fst (suggest_loop word (f0, suggs0, cs0, seen0)))\<rparr>
         \<and> (\<forall>k. suggestions (fst (suggest_loop word (f0, suggs0, cs0, seen0))) k = suggestions f0 k
                \<or> (suggestions f0 k = None
                    \<and> suggestions (fst (suggest_loop word (f0, suggs0, cs0, seen0))) k = Some []))
         \<and> (\<forall>s \<in> set (fst (snd (suggest_loop word (f0, suggs0, cs0, seen0)))).
                s \<in> set suggs0 \<or> (\<exists>k l. P k \<and> suggestions f0 k = Some l \<and> s \<in> set l))"
proof -
  let ?I = "\<lambda>st :: 'a FarooSpellingCorrector \<times> 'a Suggestion list \<times> 'a Suggestion list \<times> 'a Suggestion list.
              fst st = f0\<lparr>suggestions := suggestions (fst st)\<rparr>
              \<and> (\<forall>k. suggestions (fst st) k = suggestions f0 k
                     \<or> (suggestions f0 k = None \<and> suggestions (fst st) k = Some []))
              \<and> (\<forall>s \<in> set (fst (snd st)).
                     s \<in> set suggs0 \<or> (\<exists>k l. P k \<and> suggestions f0 k = Some l \<and> s \<in> set l))
              \<and> (\<forall>c \<in> set (fst (snd (snd st))). P (s_term c))"
  have "?I (suggest_loop word (f0, suggs0, cs0, seen0))"
  proof (rule suggest_loop_invariant)
    show "?I (f0, suggs0, cs0, seen0)" using P0 by simp
  next
    fix f suggs c cs seen
    assume I: "?I (f, suggs, c # cs, seen)"
    let ?st = "loop_body word f suggs c cs seen"
    let ?m = "fst (getitem (suggestions f) (s_term c))"
    have f: "f = f0\<lparr>suggestions := suggestions f\<rparr>"
      using I by simp
    have Pc: "P (s_term c)" and Pcs: "\<forall>c' \<in> set cs. P (s_term c')"
      using I by simp_all
    have fst: "fst ?st = f\<lparr>suggestions := ?m\<rparr>"
      by (rule loop_body_corrector)
    have 1: "fst ?st = f0\<lparr>suggestions := suggestions (fst ?st)\<rparr>"
      unfolding fst by (subst f) simp
    have keys: "\<forall>k. suggestions f k = suggestions f0 k
                  \<or> (suggestions f0 k = None \<and> suggestions f k = Some [])"
      using I by simp
    have 2: "\<forall>k. suggestions (fst ?st) k = suggestions f0 k
               \<or> (suggestions f0 k = None \<and> suggestions (fst ?st) k = Some [])"
    proof
      fix k
      from getitem_fst_apply [of "suggestions f" "s_term c" k] spec [OF keys, of k]
      show "suggestions (fst ?st) k = suggestions f0 k
              \<or> (suggestions f0 k = None \<and> suggestions (fst ?st) k = Some [])"
        unfolding fst by auto
    qed
    have 3: "\<forall>s \<in> set (fst (snd ?st)).
               s \<in> set suggs0 \<or> (\<exists>k l. P k \<and> suggestions f0 k = Some l \<and> s \<in> set l)"
    proof
      fix s
      assume "s \<in> set (fst (snd ?st))"
      with loop_body_suggs_subset [of word f suggs c cs seen]
      consider "s \<in> set suggs" | "s \<in> set (snd (getitem (suggestions f) (s_term c)))"
        by blast
      then show "s \<in> set suggs0 \<or> (\<exists>k l. P k \<and> suggestions f0 k = Some l \<and> s \<in> set l)"
      proof cases
        case 1
        with I show ?thesis by simp
      next
        case 2
        from getitem_snd_stored [OF 2] obtain l where l: "suggestions f (s_term c) = Some l" "s \<in> set l"
          by blast
        with spec [OF keys, of "s_term c"] have "suggestions f0 (s_term c) = Some l"
          by auto
        with l(2) Pc show ?thesis by blast
      qed
    qed
    have 4: "\<forall>c' \<in> set (fst (snd (snd ?st))). P (s_term c')"
    proof
      fix c'
      assume "c' \<in> set (fst (snd (snd ?st)))"
      with loop_body_queue [of word f suggs c cs seen]
      consider "c' \<in> set cs" | "c' \<in> set (edits (s_term c) 1 1)" by blast
      then show "P (s_term c')"
      proof cases
        case 1
        with Pcs show ?thesis by simp
      next
        case 2
        from edits_1_terms [OF 2] Pc show ?thesis by (auto intro: Pdel)
      qed
    qed
    from 1 2 3 4 show "?I ?st" by blast
  qed
  then show ?thesis by simp
qed


lemma suggest_keys:
  "suggestions (fst (suggest f word)) k = suggestions f k
     \<or> (suggestions f k = None \<and> suggestions (fst (suggest f word)) k = Some [])"
  unfolding suggest_fst
  using suggest_loop_frame [of "[Suggestion_init word 1 0]" "\<lambda>k. True" word f "[]"] by blast

lemma suggest_stored:
  assumes "s \<in> set (snd (suggest f word))"
  shows "\<exists>k l. subseq k word \<and> suggestions f k = Some l \<and> s \<in> set l"
proof -
  have P0: "\<forall>c \<in> set [Suggestion_init word 1 0]. subseq (s_term c) word"
    by (simp add: Suggestion_init_def)
  have Pdel: "\<And>c i. subseq c word \<Longrightarrow> subseq (delete_at c i) word"
    using subseq_delete_at subseq_order.trans by blast
  from assms have "s \<in> set (fst (snd (suggest_loop word
      (f, [], [Suggestion_init word 1 0], [Suggestion_init word 1 0]))))"
    by (simp add: suggest_snd)
  with suggest_loop_frame [of "[Suggestion_init word 1 0]" "\<lambda>k. subseq k word" word f "[]"
      "[Suggestion_init word 1 0]", OF P0 Pdel]
  show ?thesis by auto
qed

section \<open>Counts and order of the results\<close>

lemma stored_counts_zero_init: "stored_counts_zero (FarooSpellingCorrector_init md keep_all m)"
  by (simp add: stored_counts_zero_def FarooSpellingCorrector_init_def)

lemma set_keep_lowest_distance:
  "set (keep_lowest_distance f l s) \<subseteq> insert s (set l)"
  by (auto simp: keep_lowest_distance_def Let_def)

lemma add_delete_suggestions:
  "suggestions (add_delete f entry d) k =
     (if k = s_term d
      then Some (keep_lowest_distance f (snd (getitem (suggestions f) k))
                   (Suggestion_init entry 0 (s_distance d)))
      else suggestions f k)"
  by (simp add: add_delete_def getitem_fst split: option.splits)

lemma add_delete_fields:
  "dictionary (add_delete f entry d) = dictionary f"
  "max_distance (add_delete f entry d) = max_distance f"
  "keep_all_suggestions (add_delete f entry d) = keep_all_suggestions f"
  "metric (add_delete f entry d) = metric f"
  by (simp_all add: add_delete_def)

lemma add_deletes_fields:
  "dictionary (add_deletes f entry ds) = dictionary f"
  "max_distance (add_deletes f entry ds) = max_distance f"
  "keep_all_suggestions (add_deletes f entry ds) = keep_all_suggestions f"
  "metric (add_deletes f entry ds) = metric f"
  by (induction ds arbitrary: f) (simp_all add: add_delete_fields)

lemma add_delete_counts:
  assumes "stored_counts_zero f"
  shows "stored_counts_zero (add_delete f entry d)"
  unfolding stored_counts_zero_def
proof (intro allI impI ballI)
  fix k l s
  assume kl: "suggestions (add_delete f entry d) k = Some l" and s: "s \<in> set l"
  show "s_count s = 0"
  proof (cases "k = s_term d")
    case False
    with kl have "suggestions f k = Some l" by (simp add: add_delete_suggestions)
    with assms s show ?thesis by (auto simp: stored_counts_zero_def)
  next
    case True
    with kl have "l = keep_lowest_distance f (snd (getitem (suggestions f) k))
                        (Suggestion_init entry 0 (s_distance d))"
      by (simp add: add_delete_suggestions)
    with s set_keep_lowest_distance
    consider "s = Suggestion_init entry 0 (s_distance d)" | "s \<in> set (snd (getitem (suggestions f) k))"
      by fastforce
    then show ?thesis
    proof cases
      case 1
      then show ?thesis by (simp add: Suggestion_init_def)
    next
      case 2
      from getitem_snd_stored [OF 2] assms show ?thesis
        by (auto simp: stored_counts_zero_def)
    qed
  qed
qed

lemma add_deletes_counts:
  "stored_counts_zero f \<Longrightarrow> stored_counts_zero (add_deletes f entry ds)"
  by (induction ds arbitrary: f) (simp_all add: add_delete_counts)

lemma add_entry_suggestions:
  "suggestions (fst (add_entry f entry)) =
     (case dictionary f entry of
        None \<Rightarrow>
          suggestions
            (add_deletes
               (f\<lparr>dictionary := (dictionary f)(entry \<mapsto> \<lparr>t_term = entry, t_count = 0\<rparr>),
                  suggestions := (suggestions f)(entry \<mapsto> [Suggestion_init entry 0 0])\<rparr>)
               entry (edits entry (max_distance f) 1))
      | Some trm \<Rightarrow> suggestions f)"
  by (simp add: add_entry_def Let_def split: option.splits)

lemma add_entry_counts:
  assumes "stored_counts_zero f"
  shows "stored_counts_zero (fst (add_entry f entry))"
proof (cases "dictionary f entry")
  case (Some trm)
  with assms show ?thesis
    by (simp add: stored_counts_zero_def add_entry_suggestions)
next
  case None
  let ?g = "f\<lparr>dictionary := (dictionary f)(entry \<mapsto> \<lparr>t_term = entry, t_count = 0\<rparr>),
               suggestions := (suggestions f)(entry \<mapsto> [Suggestion_init entry 0 0])\<rparr>"
  have "stored_counts_zero ?g"
    using assms by (auto simp: stored_counts_zero_def Suggestion_init_def)
  then have "stored_counts_zero (add_deletes ?g entry (edits entry (max_distance f) 1))"
    by (rule add_deletes_counts)
  with None show ?thesis
    by (simp add: stored_counts_zero_def add_entry_suggestions)
qed

lemma suggest_counts:
  assumes "stored_counts_zero f"
  shows "stored_counts_zero (fst (suggest f word))"
  unfolding stored_counts_zero_def
proof (intro allI impI ballI)
  fix k l s
  assume kl: "suggestions (fst (suggest f word)) k = Some l" and s: "s \<in> set l"
  with suggest_keys [of f word k] have "suggestions f k = Some l" by auto
  with assms s show "s_count s = 0" by (auto simp: stored_counts_zero_def)
qed

lemma reachable_counts: "reachable f \<Longrightarrow> stored_counts_zero f"
  by (induction rule: reachable.induct)
     (simp_all add: stored_counts_zero_init add_entry_counts suggest_counts)

lemma reachable_add_corpus_loop:
  "reachable (fst st) \<Longrightarrow> reachable (fst (add_corpus_loop st corpus))"
proof (induction corpus arbitrary: st)
  case Nil
  then show ?case by simp
next
  case (Cons word corpus)
  have "fst (add_corpus_step st word) = fst (add_entry (fst st) word)"
    by (simp add: add_corpus_step_def split: prod.splits)
  with Cons.prems have "reachable (fst (add_corpus_step st word))"
    by (simp add: reachable_add_entry)
  then show ?case using Cons.IH by simp
qed

lemma reachable_doctest_corrector: "reachable (doctest_corrector keep_all)"
  unfolding doctest_corrector_def add_corpus_def
  by (rule reachable_add_corpus_loop) (simp add: reachable_init)

text \<open>
  C10. In every corrector that insertions and queries can produce from a new one, every
  Suggestion stored in a list of the index has count 0; every Suggestion that
  \<^verbatim>\<open>suggest\<close> returns has count 0, so its sort key is its distance paired with 0; and
  the Suggestion that \<^verbatim>\<open>correct\<close> returns, if any, has count 0.
\<close>

theorem suggestion_counts_zero:
  assumes "reachable f"
  shows "stored_counts_zero f
         \<and> (\<forall>s \<in> set (snd (suggest f word)).
               s_count s = 0 \<and> (s_distance s, s_count s) = (s_distance s, 0))
         \<and> (\<forall>s. snd (correct f word) = Some s \<longrightarrow> s_count s = 0)"
proof -
  have z: "stored_counts_zero f"
    using assms by (rule reachable_counts)
  have r: "\<forall>s \<in> set (snd (suggest f word)). s_count s = 0"
  proof
    fix s
    assume "s \<in> set (snd (suggest f word))"
    from suggest_stored [OF this] z show "s_count s = 0"
      by (auto simp: stored_counts_zero_def)
  qed
  have "\<forall>s. snd (correct f word) = Some s \<longrightarrow> s \<in> set (snd (suggest f word))"
    by (auto simp: correct_snd split: list.splits)
  with z r show ?thesis by auto
qed

theorem suggestion_counts_zero_witness:
  "reachable (doctest_corrector True)
   \<and> stored_counts_zero (doctest_corrector True)
   \<and> map s_count (snd (suggest (doctest_corrector True) ''hel'')) = [0, 0]"
  using suggestion_counts_zero [OF reachable_doctest_corrector, of True "''hel''"]
    reachable_doctest_corrector [of True]
  by (simp add: suggest_hel_keep_all Suggestion_init_def)

lemma distinct_set_add:
  "distinct (map s_term xs) \<Longrightarrow> distinct (map s_term (set_add xs s))"
  by (auto simp: set_add_def contains_def)

lemma distinct_accept:
  "distinct (map s_term suggs) \<Longrightarrow> distinct (map s_term (accept f word c suggs s))"
  using distinct_set_add [of suggs s] distinct_set_add [of "[]" s]
  by (simp add: accept_def Let_def)

lemma distinct_scan:
  "distinct (map s_term suggs) \<Longrightarrow> distinct (map s_term (scan f word c suggs l))"
  by (induction l arbitrary: suggs) (simp_all add: distinct_accept)

lemma distinct_suggest_loop:
  assumes "distinct (map s_term suggs0)"
  shows "distinct (map s_term (fst (snd (suggest_loop word (f0, suggs0, cs0, seen0)))))"
proof -
  let ?I = "\<lambda>st :: 'a FarooSpellingCorrector \<times> 'a Suggestion list \<times> 'a Suggestion list \<times> 'a Suggestion list.
              distinct (map s_term (fst (snd st)))"
  have "?I (suggest_loop word (f0, suggs0, cs0, seen0))"
  proof (rule suggest_loop_invariant)
    show "?I (f0, suggs0, cs0, seen0)" using assms by simp
  next
    fix f suggs c cs seen
    assume "?I (f, suggs, c # cs, seen)"
    then show "?I (loop_body word f suggs c cs seen)"
      by (simp add: loop_body_suggs distinct_scan)
  qed
  then show ?thesis .
qed

lemma distinct_terms_sort_key:
  assumes "distinct (map s_term xs)"
  shows "distinct (map s_term (sort_key k xs))"
proof -
  have "mset (map s_term (sort_key k xs)) = mset (map s_term xs)"
    by simp
  then show ?thesis
    using assms by (metis mset_eq_imp_distinct_iff)
qed

text \<open>
  What the sort of \<^verbatim>\<open>suggest\<close> orders by. The returned list is sorted ascending by the
  pair of the distance and the count that the returned Suggestion objects carry, no word
  twice. Every returned Suggestion is an object stored in the index, under a key that is
  the query or a deletion variant of it: its distance is the deletion distance stored
  with it and its count is the one stored with it; no pass of the loop writes the
  distance it computed, or a dictionary count, into a Suggestion.
\<close>

lemma suggest_sorted_by_stored_key:
  "sorted (map (\<lambda>s. (s_distance s, s_count s)) (snd (suggest f word)))
   \<and> distinct (map s_term (snd (suggest f word)))
   \<and> (\<forall>s \<in> set (snd (suggest f word)).
         \<exists>k l. subseq k word \<and> suggestions f k = Some l \<and> s \<in> set l)"
proof -
  have "sorted (map (\<lambda>s. (s_distance s, s_count s)) (snd (suggest f word)))"
    unfolding suggest_snd by (rule sorted_sort_key)
  moreover have "distinct (map s_term (snd (suggest f word)))"
    unfolding suggest_snd
    by (rule distinct_terms_sort_key) (simp add: distinct_suggest_loop)
  ultimately show ?thesis
    using suggest_stored [of _ f word] by blast
qed

lemma ranking_suggest:
  "snd (suggest ranking_corrector ''abc'')
     = [Suggestion_init ''xa'' 0 1, Suggestion_init ''abcde'' 0 2]"
  by code_simp

lemma ranking_metric:
  "edit_distance ''abc'' ''xa'' = 3" "edit_distance ''abc'' ''abcde'' = 2"
  by code_simp+

lemma ranking_count: "map_option t_count (dictionary ranking_corrector ''xa'') = Some 2"
  by code_simp

lemma squash_suggest:
  "snd (suggest squash_corrector ''aa'')
     = [Suggestion_init ''aab'' 0 1, Suggestion_init ''aaaa'' 0 2]"
  by code_simp

lemma squash_metric:
  "edit_distance ''aa'' ''aab'' = 1" "edit_distance ''aa'' ''aaaa'' = 0"
  by code_simp+

text \<open>
  The order is not that of the metric also when every returned word is within
  \<^verbatim>\<open>max_distance\<close> of the query: on the corpus \<^verbatim>\<open>["aaaa", "aab", "aab"]\<close>,
  \<^verbatim>\<open>suggest("aa")\<close> returns \<^verbatim>\<open>aab\<close>, at the metric distance 1, before \<^verbatim>\<open>aaaa\<close>, at the
  metric distance 0.
\<close>

lemma suggest_misranks_within_max_distance:
  "max_distance squash_corrector = 2
   \<and> snd (suggest squash_corrector ''aa'')
       = [Suggestion_init ''aab'' 0 1, Suggestion_init ''aaaa'' 0 2]
   \<and> edit_distance ''aa'' ''aab'' = 1
   \<and> edit_distance ''aa'' ''aaaa'' = 0
   \<and> \<not> sorted (map (\<lambda>s. edit_distance ''aa'' (s_term s)) (snd (suggest squash_corrector ''aa'')))"
proof -
  have "max_distance squash_corrector = 2" by code_simp
  then show ?thesis
    by (simp add: squash_suggest squash_metric Suggestion_init_def)
qed

text \<open>
  C2 at this input. On the corpus \<^verbatim>\<open>["abcde", "xa", "xa"]\<close> with every suggestion kept,
  \<^verbatim>\<open>suggest("abc")\<close> returns \<^verbatim>\<open>xa\<close> before \<^verbatim>\<open>abcde\<close>, while the metric gives the query
  the distance 3 to \<^verbatim>\<open>xa\<close> and 2 to \<^verbatim>\<open>abcde\<close>, so the list is not ascending in the
  distance of the metric; the returned \<^verbatim>\<open>xa\<close> carries the distance 1 and the count 0,
  and its dictionary count is 2.
\<close>

theorem suggest_not_sorted_by_metric:
  "snd (suggest ranking_corrector ''abc'')
     = [Suggestion_init ''xa'' 0 1, Suggestion_init ''abcde'' 0 2]
   \<and> edit_distance ''abc'' ''xa'' = 3
   \<and> edit_distance ''abc'' ''abcde'' = 2
   \<and> map_option t_count (dictionary ranking_corrector ''xa'') = Some 2
   \<and> \<not> sorted (map (\<lambda>s. edit_distance ''abc'' (s_term s)) (snd (suggest ranking_corrector ''abc'')))"
  by (simp add: ranking_suggest ranking_metric ranking_count Suggestion_init_def)

section \<open>The distance of a candidate, and termination\<close>

lemma distant_metric: "edit_distance ''xyab'' ''abzw'' = 4" "edit_distance ''ab'' ''xyab'' = 2"
  by code_simp+

lemma distant_suggest:
  "snd (suggest distant_corrector ''xyab'') = [Suggestion_init ''abzw'' 0 2]"
  by code_simp

lemma distant_correct:
  "snd (correct distant_corrector ''xyab'') = Some (Suggestion_init ''abzw'' 0 2)"
  by code_simp

lemma distant_stored:
  "suggestions distant_corrector ''ab'' = Some [Suggestion_init ''abzw'' 0 2]"
  by code_simp

lemma distant_probe:
  "suggestions distant_corrector ''a'' = None"
  "suggestions (fst (suggest distant_corrector ''xyab'')) ''a'' = Some []"
  by code_simp+

lemma distant_candidate_distance:
  "candidate_distance distant_corrector ''xyab'' (Suggestion_init ''ab'' 0 1)
     (Suggestion_init ''abzw'' 0 2) = 2"
  by code_simp

text \<open>
  C1 at this input. The candidate \<^verbatim>\<open>ab\<close> of the query \<^verbatim>\<open>xyab\<close> has the suggestion
  \<^verbatim>\<open>abzw\<close> in the index. The metric gives the query and \<^verbatim>\<open>abzw\<close> the distance 4; the
  code computes the distance of the candidate \<^verbatim>\<open>ab\<close> to the query, which is 2, and
  returns \<^verbatim>\<open>abzw\<close> although \<^verbatim>\<open>max_distance\<close> is 2.
\<close>

theorem suggest_measures_candidate:
  "suggestions distant_corrector ''ab'' = Some [Suggestion_init ''abzw'' 0 2]
   \<and> edit_distance ''xyab'' ''abzw'' = 4
   \<and> edit_distance ''ab'' ''xyab'' = 2
   \<and> candidate_distance distant_corrector ''xyab'' (Suggestion_init ''ab'' 0 1)
        (Suggestion_init ''abzw'' 0 2) = 2
   \<and> max_distance distant_corrector = 2
   \<and> snd (suggest distant_corrector ''xyab'') = [Suggestion_init ''abzw'' 0 2]"
proof -
  have "max_distance distant_corrector = 2" by code_simp
  then show ?thesis
    using distant_stored distant_metric distant_candidate_distance distant_suggest by blast
qed

lemma add_entry_dictionary:
  "dictionary (fst (add_entry f entry)) =
     (dictionary f)(entry \<mapsto>
        (case dictionary f entry of
           None \<Rightarrow> \<lparr>t_term = entry, t_count = 0 + 1\<rparr>
         | Some trm \<Rightarrow> trm\<lparr>t_count := t_count trm + 1\<rparr>))"
  by (simp add: add_entry_def Let_def add_deletes_fields split: option.splits)

lemma dom_add_entry:
  "dom (dictionary (fst (add_entry f entry))) = insert entry (dom (dictionary f))"
  by (simp add: add_entry_dictionary)

lemma dom_add_corpus_loop:
  "dom (dictionary (fst (add_corpus_loop st corpus))) = dom (dictionary (fst st)) \<union> set corpus"
proof (induction corpus arbitrary: st)
  case Nil
  show ?case by simp
next
  case (Cons word corpus)
  have "fst (add_corpus_step st word) = fst (add_entry (fst st) word)"
    by (simp add: add_corpus_step_def split: prod.splits)
  then show ?case
    using Cons.IH [of "add_corpus_step st word"] by (simp add: dom_add_entry)
qed

lemma dom_add_corpus_init:
  "dom (dictionary (fst (add_corpus (FarooSpellingCorrector_init md keep_all m) corpus))) = set corpus"
  by (simp add: add_corpus_def dom_add_corpus_loop FarooSpellingCorrector_init_def)

lemma loop_body_shortens:
  assumes "e \<in> set (fst (snd (snd (loop_body word f suggs c cs seen))))"
  shows "e \<in> set cs \<or> length (s_term e) < length (s_term c)"
  using assms loop_body_queue [of word f suggs c cs seen] edits_term_shorter [of e "s_term c" 1 1]
  by blast

text \<open>
  Termination. \<^verbatim>\<open>suggest\<close> and \<^verbatim>\<open>correct\<close> return on every query word and
  every corrector: some number of passes of the loop empties the queue, and the loop
  returns the state reached then. A pass removes the popped candidate and appends only
  terms that are shorter than it, and appends nothing when the distance that the
  candidate carries is not below \<^verbatim>\<open>max_distance\<close>. \<^verbatim>\<open>correct\<close> returns no value exactly when the list of
  \<^verbatim>\<open>suggest\<close> is empty; and when no key of the index that is the query or is left of it
  after deleting characters holds a suggestion, that list is empty.
\<close>

lemma suggest_terminates:
  "(\<exists>n. fst (snd (snd ((while_step word ^^ n)
             (f, [], [Suggestion_init word 1 0], [Suggestion_init word 1 0])))) = []
        \<and> suggest_loop word (f, [], [Suggestion_init word 1 0], [Suggestion_init word 1 0])
            = (while_step word ^^ n) (f, [], [Suggestion_init word 1 0], [Suggestion_init word 1 0]))
   \<and> (\<forall>g suggs c cs seen. \<forall>e \<in> set (fst (snd (snd (loop_body word g suggs c cs seen)))).
          e \<in> set cs \<or> length (s_term e) < length (s_term c))
   \<and> (\<forall>g suggs c cs seen. \<not> s_distance c < max_distance g \<longrightarrow>
          fst (snd (snd (loop_body word g suggs c cs seen))) = cs)
   \<and> (snd (correct f word) = None \<longleftrightarrow> snd (suggest f word) = [])
   \<and> ((\<forall>k l. subseq k word \<and> suggestions f k = Some l \<longrightarrow> l = [])
        \<longrightarrow> snd (suggest f word) = [] \<and> snd (correct f word) = None)"
proof -
  have 1: "\<exists>n. fst (snd (snd ((while_step word ^^ n)
             (f, [], [Suggestion_init word 1 0], [Suggestion_init word 1 0])))) = []
        \<and> suggest_loop word (f, [], [Suggestion_init word 1 0], [Suggestion_init word 1 0])
            = (while_step word ^^ n) (f, [], [Suggestion_init word 1 0], [Suggestion_init word 1 0])"
    by (rule suggest_loop_funpow)
  have 2: "\<forall>g suggs c cs seen. \<forall>e \<in> set (fst (snd (snd (loop_body word g suggs c cs seen)))).
          e \<in> set cs \<or> length (s_term e) < length (s_term c)"
    using loop_body_shortens by blast
  have 5: "\<forall>g suggs c cs seen. \<not> s_distance c < max_distance g \<longrightarrow>
          fst (snd (snd (loop_body word g suggs c cs seen))) = cs"
    by (simp add: loop_body_def Let_def split: prod.splits)
  have 3: "snd (correct f word) = None \<longleftrightarrow> snd (suggest f word) = []"
    by (simp add: correct_snd split: list.splits)
  have 4: "snd (suggest f word) = []" if h: "\<forall>k l. subseq k word \<and> suggestions f k = Some l \<longrightarrow> l = []"
  proof (cases "snd (suggest f word)")
    case Nil
    then show ?thesis .
  next
    case (Cons s rest)
    then have "s \<in> set (snd (suggest f word))" by simp
    from suggest_stored [OF this] h show ?thesis by fastforce
  qed
  from 1 2 3 4 5 show ?thesis by blast
qed

lemma subseq_singleton_right: "subseq k [x] \<Longrightarrow> k = [] \<or> k = [x]"
  by (cases k) (auto split: if_splits)

lemma doctest_q_absent:
  "suggestions (doctest_corrector False) [] = None"
  "suggestions (doctest_corrector False) ''q'' = None"
  by code_simp+

lemma suggest_q_empty:
  "snd (suggest (doctest_corrector False) ''q'') = []
   \<and> snd (correct (doctest_corrector False) ''q'') = None"
proof -
  have "\<forall>k l. subseq k ''q'' \<and> suggestions (doctest_corrector False) k = Some l \<longrightarrow> l = []"
    using doctest_q_absent by (auto dest!: subseq_singleton_right)
  with suggest_terminates [of "''q''" "doctest_corrector False"] show ?thesis
    by blast
qed

lemma distant_tags:
  "map s_distance (edits ''xyab'' 1 1) = [1, 1, 1, 1]"
  "map s_distance (edits ''yab'' 1 1) = [1, 1, 1]"
  by code_simp+

text \<open>
  C8 at this input. On the corpus \<^verbatim>\<open>["abzw"]\<close> with \<^verbatim>\<open>max_distance = 2\<close> the only
  dictionary word is at the distance 4 of the query \<^verbatim>\<open>xyab\<close>, so no dictionary word
  lies within \<^verbatim>\<open>max_distance\<close> of the query; \<^verbatim>\<open>suggest\<close> returns a list that is not
  empty and \<^verbatim>\<open>correct\<close> returns a value. The terms that \<^verbatim>\<open>edits\<close> returns for the
  queue all carry the distance 1, those of the query and those of its variant \<^verbatim>\<open>yab\<close>
  alike, and the search pops the term \<^verbatim>\<open>a\<close>, three deletions away from the query (the
  index holds the key \<^verbatim>\<open>a\<close> after the call and not before): a term two deletions
  away was expanded.
\<close>

theorem suggest_nonempty_beyond_max_distance:
  "dom (dictionary distant_corrector) = {''abzw''}
   \<and> max_distance distant_corrector = 2
   \<and> edit_distance ''xyab'' ''abzw'' = 4
   \<and> snd (suggest distant_corrector ''xyab'') \<noteq> []
   \<and> snd (correct distant_corrector ''xyab'') \<noteq> None
   \<and> map s_distance (edits ''xyab'' 1 1) = [1, 1, 1, 1]
   \<and> map s_distance (edits ''yab'' 1 1) = [1, 1, 1]
   \<and> suggestions distant_corrector ''a'' = None
   \<and> suggestions (fst (suggest distant_corrector ''xyab'')) ''a'' = Some []"
proof -
  have "dom (dictionary distant_corrector) = {''abzw''}"
    by (simp add: distant_corrector_def dom_add_corpus_init)
  moreover have "max_distance distant_corrector = 2" by code_simp
  ultimately show ?thesis
    using distant_metric distant_probe distant_tags
    by (simp add: distant_suggest distant_correct)
qed

section \<open>The index after insertions\<close>

lemma doctest_hell_keep_all:
  "suggestions (doctest_corrector True) ''hell'' = Some [Suggestion_init ''hell'' 0 0]"
  by code_simp

lemma hell_variant_of_hello:
  "map (\<lambda>s. (s_term s, s_distance s)) (filter (\<lambda>s. s_term s = ''hell'') (edits ''hello'' 2 1))
     = [(''hell'', 1)]"
  by code_simp

lemma hell_then_hello:
  "suggestions (fst (add_corpus (FarooSpellingCorrector_init 2 True edit_distance) [''hell'', ''hello'']))
     ''hell'' = Some [Suggestion_init ''hell'' 0 0, Suggestion_init ''hello'' 0 1]"
  by code_simp

text \<open>
  C3 at the corpus \<^verbatim>\<open>["hello", "hell"]\<close> with \<^verbatim>\<open>keep_all_suggestions\<close> enabled.
  \<^verbatim>\<open>hello\<close> is in the dictionary and \<^verbatim>\<open>edits\<close> gives it the variant \<^verbatim>\<open>hell\<close> at one
  deletion, but the list of \<^verbatim>\<open>hell\<close> holds \<^verbatim>\<open>hell\<close> alone: adding \<^verbatim>\<open>hell\<close> assigned a
  new list to its own key. With the two words added in the other order the list holds
  both.
\<close>

theorem keep_all_drops_producer:
  "dom (dictionary (doctest_corrector True)) = {''hello'', ''hell''}
   \<and> keep_all_suggestions (doctest_corrector True)
   \<and> map (\<lambda>s. (s_term s, s_distance s)) (filter (\<lambda>s. s_term s = ''hell'') (edits ''hello'' 2 1))
        = [(''hell'', 1)]
   \<and> suggestions (doctest_corrector True) ''hell'' = Some [Suggestion_init ''hell'' 0 0]
   \<and> suggestions (fst (add_corpus (FarooSpellingCorrector_init 2 True edit_distance) [''hell'', ''hello'']))
        ''hell'' = Some [Suggestion_init ''hell'' 0 0, Suggestion_init ''hello'' 0 1]"
proof -
  have "dom (dictionary (doctest_corrector True)) = {''hello'', ''hell''}"
    by (simp add: doctest_corrector_def dom_add_corpus_init)
  moreover have "keep_all_suggestions (doctest_corrector True)" by code_simp
  ultimately show ?thesis
    using hell_variant_of_hello doctest_hell_keep_all hell_then_hello by blast
qed

section \<open>What the deletion generator returns\<close>

lemma pairs_append: "pairs (xs @ ys) = pairs xs \<union> pairs ys"
  by (auto simp: pairs_def)

lemma pairs_mono: "set xs \<subseteq> set ys \<Longrightarrow> pairs xs \<subseteq> pairs ys"
  by (auto simp: pairs_def)

lemma pairs_term: "(v, d) \<in> pairs xs \<Longrightarrow> v \<in> s_term ` set xs"
  by (auto simp: pairs_def)

lemma term_pairs: "v \<in> s_term ` set xs \<Longrightarrow> \<exists>d. (v, d) \<in> pairs xs"
  by (auto simp: pairs_def)

lemma contains_terms: "contains xs s \<longleftrightarrow> s_term s \<in> s_term ` set xs"
  unfolding contains_def image_iff by metis

lemma set_add_mono: "set xs \<subseteq> set (set_add xs s)"
  by (auto simp: set_add_def)

lemma terms_set_add: "s_term ` set (set_add xs s) = insert (s_term s) (s_term ` set xs)"
  unfolding set_add_def contains_terms by auto

lemma set_update_mono: "set xs \<subseteq> set (set_update xs ys)"
  unfolding set_update_def
proof (induction ys arbitrary: xs)
  case Nil
  show ?case by simp
next
  case (Cons y ys)
  show ?case using Cons.IH [of "set_add xs y"] set_add_mono [of xs y] by auto
qed

lemma terms_set_update:
  "s_term ` set (set_update xs ys) = s_term ` set xs \<union> s_term ` set ys"
  unfolding set_update_def
proof (induction ys arbitrary: xs)
  case Nil
  show ?case by simp
next
  case (Cons y ys)
  show ?case using Cons.IH [of "set_add xs y"] by (auto simp: terms_set_add)
qed

lemma distinct_set_update:
  "distinct (map s_term xs) \<Longrightarrow> distinct (map s_term (set_update xs ys))"
  unfolding set_update_def
  by (induction ys arbitrary: xs) (simp_all add: distinct_set_add)

lemma delete_at_Cons_0: "delete_at (y # ys) 0 = ys"
  by (simp add: delete_at_def)

lemma delete_at_Cons_Suc: "delete_at (y # ys) (Suc i) = y # delete_at ys i"
  by (simp add: delete_at_def)

lemma subseq_proper_delete_at:
  "subseq v w \<Longrightarrow> length v < length w \<Longrightarrow> \<exists>i < length w. subseq v (delete_at w i)"
proof (induction rule: list_emb.induct)
  case (list_emb_Nil ys)
  then show ?case by (intro exI [of _ 0]) simp
next
  case (list_emb_Cons xs ys y)
  then show ?case by (intro exI [of _ 0]) (simp add: delete_at_Cons_0)
next
  case (list_emb_Cons2 x y xs ys)
  then obtain i where "i < length ys" "subseq xs (delete_at ys i)" by auto
  with list_emb_Cons2.hyps(1) show ?case
    by (intro exI [of _ "Suc i"]) (simp add: delete_at_Cons_Suc)
qed

lemma deletions_delete_at:
  assumes "i < length entry" "(v, d) \<in> deletions (delete_at entry i) md (d0 + 1)"
  shows "(v, d) \<in> deletions entry md d0"
proof -
  from assms(2) have v: "v \<noteq> []" "subseq v (delete_at entry i)"
      "length v < length (delete_at entry i)"
      "d = d0 + 1 + int (length (delete_at entry i) - length v) - 1" "d \<le> md"
    by (auto simp: deletions_def)
  have len: "length (delete_at entry i) = length entry - 1"
    using assms(1) by (rule length_delete_at)
  have "subseq v entry"
    using v(2) subseq_delete_at [of entry i] subseq_order.trans by blast
  moreover have "length v < length entry" using v(3) len by simp
  moreover have "d = d0 + int (length entry - length v) - 1"
    using v(3,4) len by simp
  ultimately show ?thesis using v(1,5) by (simp add: deletions_def)
qed

lemma deletions_distance: "(v, d) \<in> deletions entry md d0 \<Longrightarrow> (v, d') \<in> deletions entry md d0 \<Longrightarrow> d = d'"
  by (simp add: deletions_def)

lemma foldl_reaches:
  assumes "x \<in> set xs"
    and "\<And>a y. Q a \<Longrightarrow> Q (f a y)"
    and "\<And>a. Q (f a x)"
  shows "Q (foldl f a xs)"
  using assms(1)
proof (induction xs arbitrary: a)
  case Nil
  then show ?case by simp
next
  case (Cons y ys)
  have keep: "Q b \<Longrightarrow> Q (foldl f b ys)" for b
    by (induction ys arbitrary: b) (simp_all add: assms(2))
  show ?case
  proof (cases "x = y")
    case True
    then show ?thesis using keep [of "f a y"] assms(3) by simp
  next
    case False
    with Cons.prems have "x \<in> set ys" by simp
    then show ?thesis using Cons.IH by simp
  qed
qed

lemma edits_deletions:
  "d0 \<le> md \<Longrightarrow> pairs (edits entry md d0) = deletions entry md d0
                      \<and> distinct (map s_term (edits entry md d0))"
proof (induction entry md d0 rule: edits.induct)
  case (1 entry md d0)
  note le = "1.prems"
  let ?n = "length entry"
  let ?S = "deletions entry md d0"
  let ?del = "\<lambda>i. Suggestion_init (delete_at entry i) 0 d0"
  let ?R = "\<lambda>i. edits (delete_at entry i) md (d0 + 1)"
  let ?f = "\<lambda>deletes i.
                 let modified_entry = delete_at entry i;
                     delete = Suggestion_init modified_entry 0 d0
                 in if \<not> contains deletes delete then
                      (if d0 < md then
                         set_update (set_add deletes delete)
                           (edits modified_entry md (d0 + 1))
                       else set_add deletes delete)
                    else deletes"
  let ?closed = "\<lambda>a :: 'a Suggestion list. \<forall>s \<in> set a. length (s_term s) = ?n - 1 \<longrightarrow> d0 < md
                   \<longrightarrow> deletions (s_term s) md (d0 + 1) \<subseteq> pairs a"
  let ?P = "\<lambda>a :: 'a Suggestion list. pairs a \<subseteq> ?S \<and> distinct (map s_term a) \<and> ?closed a"
  show ?case
  proof (cases "1 < ?n")
    case False
    then have "edits entry md d0 = []"
      by (simp add: edits.simps [of entry])
    moreover have "?S = {}"
    proof -
      have "\<not> (v \<noteq> [] \<and> length v < ?n)" for v :: "'a list"
        using False by (cases v) auto
      then show ?thesis by (auto simp: deletions_def)
    qed
    ultimately show ?thesis by (simp add: pairs_def)
  next
    case True
    have eq: "edits entry md d0 = foldl ?f [] [0..<?n]"
      using True by (simp add: edits.simps [of entry])
    have del_in_S: "(delete_at entry i, d0) \<in> ?S" if "i < ?n" for i
    proof -
      have "length (delete_at entry i) = ?n - 1" using that by (rule length_delete_at)
      then show ?thesis
        using True le that subseq_delete_at [of entry i]
        by (auto simp: deletions_def)
    qed
    have step: "?P (?f a i)" if i: "i \<in> set [0..<?n]" and Pa: "?P a" for a i
    proof -
      let ?m = "delete_at entry i"
      have i': "i < ?n" using i by simp
      have lenm: "length ?m = ?n - 1" using i' by (rule length_delete_at)
      have term_del: "s_term (?del i) = ?m" and dist_del: "s_distance (?del i) = d0"
        by (simp_all add: Suggestion_init_def)
      show ?thesis
      proof (cases "contains a (?del i)")
        case True
        then show ?thesis using Pa by (simp add: Let_def)
      next
        case nc: False
        let ?a1 = "set_add a (?del i)"
        have a1: "?a1 = a @ [?del i]" using nc by (simp add: set_add_def)
        have pairs_a1: "pairs ?a1 = pairs a \<union> {(?m, d0)}"
          unfolding a1 by (simp add: pairs_def term_del dist_del)
        have sound1: "pairs ?a1 \<subseteq> ?S"
          using Pa del_in_S [OF i'] pairs_a1 by simp
        have dist1: "distinct (map s_term ?a1)"
          using Pa by (simp add: distinct_set_add)
        show ?thesis
        proof (cases "d0 < md")
          case False
          have "?closed ?a1" using False by simp
          with sound1 dist1 have "?P ?a1" by simp
          then show ?thesis using nc False by (simp add: Let_def)
        next
          case lt: True
          let ?a2 = "set_update ?a1 (?R i)"
          have IH: "pairs (?R i) = deletions ?m md (d0 + 1)"
              "distinct (map s_term (?R i))"
            using "1.IH" [OF True i refl refl nc lt] lt by simp_all
          have R_in_S: "pairs (?R i) \<subseteq> ?S"
            unfolding IH(1) using deletions_delete_at [OF i'] by auto
          have "set ?a2 \<subseteq> set ?a1 \<union> set (?R i)" by (rule set_set_update)
          then have "pairs ?a2 \<subseteq> pairs ?a1 \<union> pairs (?R i)"
            by (auto simp: pairs_def)
          with sound1 R_in_S have sound2: "pairs ?a2 \<subseteq> ?S" by blast
          have dist2: "distinct (map s_term ?a2)"
            using dist1 by (rule distinct_set_update)
          have mono: "pairs a \<subseteq> pairs ?a2"
            using set_add_mono [of a "?del i"] set_update_mono [of ?a1 "?R i"]
            by (auto simp: pairs_def)
          have R_in_a2: "pairs (?R i) \<subseteq> pairs ?a2"
          proof
            fix p
            assume p: "p \<in> pairs (?R i)"
            obtain v d where vd: "p = (v, d)" by (cases p)
            with p have "v \<in> s_term ` set (?R i)" by (auto dest: pairs_term)
            then have "v \<in> s_term ` set ?a2" by (simp add: terms_set_update)
            then obtain d' where d': "(v, d') \<in> pairs ?a2" by (metis term_pairs)
            with sound2 have "(v, d') \<in> ?S" by blast
            moreover from p vd R_in_S have "(v, d) \<in> ?S" by blast
            ultimately have "d = d'" by (simp add: deletions_def)
            with d' vd show "p \<in> pairs ?a2" by simp
          qed
          have closed2: "?closed ?a2"
          proof (intro ballI impI)
            fix s
            assume s: "s \<in> set ?a2" and ls: "length (s_term s) = ?n - 1"
            from s set_set_update [of ?a1 "?R i"] a1
            consider "s \<in> set a" | "s = ?del i" | "s \<in> set (?R i)" by auto
            then show "deletions (s_term s) md (d0 + 1) \<subseteq> pairs ?a2"
            proof cases
              case 1
              with Pa ls lt have "deletions (s_term s) md (d0 + 1) \<subseteq> pairs a"
                by blast
              with mono show ?thesis by blast
            next
              case 2
              then show ?thesis using R_in_a2 IH(1) by (simp add: term_del)
            next
              case 3
              then have "length (s_term s) < length ?m" by (rule edits_term_shorter)
              with ls lenm show ?thesis by simp
            qed
          qed
          from sound2 dist2 closed2 have "?P ?a2" by simp
          then show ?thesis using nc lt by (simp add: Let_def)
        qed
      qed
    qed
    define res where "res = foldl ?f [] [0..<?n]"
    have P: "?P res"
      unfolding res_def
      by (rule foldl_invariant [where P = ?P]) (simp add: pairs_def, rule step)
    have sound: "pairs res \<subseteq> ?S" and distinct_res: "distinct (map s_term res)"
      using P by simp_all
    have closed: "deletions (s_term s) md (d0 + 1) \<subseteq> pairs res"
      if "s \<in> set res" "length (s_term s) = ?n - 1" "d0 < md" for s
      using P that by simp
    have reach: "delete_at entry i \<in> s_term ` set res" if "i < ?n" for i
      unfolding res_def
    proof (rule foldl_reaches [where x = i and Q = "\<lambda>a. delete_at entry i \<in> s_term ` set a"])
      show "i \<in> set [0..<?n]" using that by simp
    next
      fix a :: "'a Suggestion list" and y
      assume "delete_at entry i \<in> s_term ` set a"
      then show "delete_at entry i \<in> s_term ` set (?f a y)"
        using set_add_mono [of a "?del y"] set_update_mono [of "set_add a (?del y)" "?R y"]
        by (auto simp: Let_def)
    next
      fix a :: "'a Suggestion list"
      have "delete_at entry i \<in> s_term ` set (set_add a (?del i))"
        by (simp add: terms_set_add Suggestion_init_def)
      then show "delete_at entry i \<in> s_term ` set (?f a i)"
        using set_update_mono [of "set_add a (?del i)" "?R i"]
        by (auto simp: Let_def contains_terms Suggestion_init_def)
    qed
    have complete: "?S \<subseteq> pairs res"
    proof
      fix p
      assume p: "p \<in> ?S"
      obtain v d where vd: "p = (v, d)" by (cases p)
      with p have v: "v \<noteq> []" "subseq v entry" "length v < ?n"
          "d = d0 + int (?n - length v) - 1" "d \<le> md"
        by (auto simp: deletions_def)
      from subseq_proper_delete_at [OF v(2,3)] obtain i where
        i: "i < ?n" "subseq v (delete_at entry i)" by blast
      let ?m = "delete_at entry i"
      have lenm: "length ?m = ?n - 1" using i(1) by (rule length_delete_at)
      from reach [OF i(1)] obtain s where s: "s \<in> set res" "s_term s = ?m" by auto
      show "p \<in> pairs res"
      proof (cases "v = ?m")
        case True
        from s have sp: "(?m, s_distance s) \<in> pairs res" by (force simp: pairs_def)
        with sound have "(?m, s_distance s) \<in> ?S" by blast
        moreover have "(?m, d) \<in> ?S" using p vd True by simp
        ultimately have "s_distance s = d" by (simp add: deletions_def)
        with sp vd True show ?thesis by simp
      next
        case False
        with i(2) have lt_len: "length v < length ?m"
          using list_emb_length [of "(=)" v ?m] subseq_same_length [of v ?m] by force
        then have d: "d = d0 + 1 + int (length ?m - length v) - 1"
          using v(4) lenm by simp
        with lt_len v(5) have lt: "d0 < md" by simp
        have "(v, d) \<in> deletions ?m md (d0 + 1)"
          using d v(1,5) i(2) lt_len by (simp add: deletions_def)
        moreover have "deletions ?m md (d0 + 1) \<subseteq> pairs res"
          using closed [OF s(1) _ lt] s(2) lenm by simp
        ultimately show ?thesis using vd by blast
      qed
    qed
    from sound complete distinct_res show ?thesis unfolding eq res_def [symmetric] by blast
  qed
qed

lemma edits_ab: "map (\<lambda>s. (s_term s, s_distance s)) (edits ''ab'' 2 1) = [(''b'', 1), (''a'', 1)]"
  by code_simp

text \<open>
  C6, as the code has it. For every word \<open>w\<close> longer than one character and every
  \<open>k \<ge> 1\<close>, \<^verbatim>\<open>edits(w, k)\<close> returns exactly the non-empty strings that are left of \<open>w\<close>
  after deleting exactly \<open>i\<close> characters at any positions, for some \<open>i\<close> between 1 and
  \<open>k\<close> (the subsequences of \<open>w\<close> that are \<open>i\<close> shorter), each once and with the distance
  \<open>i\<close>, which its length determines. A word of at most one character has no deletions.
\<close>

theorem edits_characterisation:
  "(length w \<le> 1 \<longrightarrow> edits w k 1 = [])
   \<and> (1 < length w \<and> 1 \<le> k \<longrightarrow>
        (\<lambda>s. (s_term s, s_distance s)) ` set (edits w k 1)
          = {(v, i). 1 \<le> i \<and> i \<le> k \<and> v \<noteq> [] \<and> subseq v w
                     \<and> int (length w) = int (length v) + i}
        \<and> distinct (map s_term (edits w k 1)))"
proof (intro conjI impI)
  assume "length w \<le> 1"
  then show "edits w k 1 = []" by (simp add: edits.simps [of w])
next
  assume h: "1 < length w \<and> 1 \<le> k"
  then have e: "pairs (edits w k 1) = deletions w k 1" "distinct (map s_term (edits w k 1))"
    using edits_deletions [of 1 k w] by simp_all
  have "deletions w k 1
          = {(v, i). 1 \<le> i \<and> i \<le> k \<and> v \<noteq> [] \<and> subseq v w \<and> int (length w) = int (length v) + i}"
    by (auto simp: deletions_def)
  with e(1) show "(\<lambda>s. (s_term s, s_distance s)) ` set (edits w k 1)
          = {(v, i). 1 \<le> i \<and> i \<le> k \<and> v \<noteq> [] \<and> subseq v w \<and> int (length w) = int (length v) + i}"
    by (simp add: pairs_def)
  from e(2) show "distinct (map s_term (edits w k 1))" .
qed

theorem edits_characterisation_witness:
  "edits ''a'' 2 1 = []
   \<and> (\<lambda>s. (s_term s, s_distance s)) ` set (edits ''abc'' 2 1)
        = {(v, i). 1 \<le> i \<and> i \<le> 2 \<and> v \<noteq> [] \<and> subseq v ''abc''
                   \<and> int (length ''abc'') = int (length v) + i}
   \<and> distinct (map s_term (edits ''abc'' 2 1))"
  using edits_characterisation [of "''a''" 2] edits_characterisation [of "''abc''" 2]
  by simp

text \<open>
  C6 as stated fails: deleting exactly two characters from \<^verbatim>\<open>ab\<close> leaves the empty
  string, and \<^verbatim>\<open>edits("ab", 2)\<close> returns \<^verbatim>\<open>b\<close> and \<^verbatim>\<open>a\<close> only (the generator does
  not go below a word of one character).
\<close>

theorem edits_omits_empty_string:
  "1 < length ''ab''
   \<and> subseq [] ''ab''
   \<and> int (length ''ab'') = int (length ([] :: string)) + 2
   \<and> [] \<notin> s_term ` set (edits ''ab'' 2 1)
   \<and> map (\<lambda>s. (s_term s, s_distance s)) (edits ''ab'' 2 1) = [(''b'', 1), (''a'', 1)]"
proof -
  have "s_term ` set (edits ''ab'' 2 1) = fst ` set (map (\<lambda>s. (s_term s, s_distance s)) (edits ''ab'' 2 1))"
    by (simp add: image_image)
  then have "[] \<notin> s_term ` set (edits ''ab'' 2 1)"
    unfolding edits_ab by simp
  then show ?thesis using edits_ab by simp
qed

section \<open>The keys a query stores\<close>




















section \<open>The index keeps the nearest producers\<close>

lemma stored_cases: "stored f v = (case suggestions f v of None \<Rightarrow> [] | Some l \<Rightarrow> l)"
  by (simp add: stored_def getitem_snd)

lemma deletions_pos: "(v, d) \<in> deletions w md 1 \<Longrightarrow> 1 \<le> d \<and> v \<noteq> w"
  by (auto simp: deletions_def)

lemma records_nonneg: "records md w v d \<Longrightarrow> 0 \<le> d"
  using deletions_pos by (fastforce simp: records_def)

lemma records_self: "records md w w 0"
  by (simp add: records_def)

lemma records_zero: "records md w v 0 \<Longrightarrow> v = w"
  using deletions_pos by (fastforce simp: records_def)

lemma records_fun: "records md w v d \<Longrightarrow> records md w v d' \<Longrightarrow> d = d'"
  using deletions_pos deletions_distance by (fastforce simp: records_def)

lemma records_edits:
  assumes "1 \<le> md" "v \<noteq> w"
  shows "records md w v d \<longleftrightarrow> (v, d) \<in> pairs (edits w md 1)"
  using assms edits_deletions [of 1 md w] by (simp add: records_def)

lemma least_distance:
  assumes "P d" and "\<And>d. P d \<Longrightarrow> (0::int) \<le> d"
  shows "\<exists>d0. P d0 \<and> (\<forall>d. P d \<longrightarrow> d0 \<le> d)"
proof -
  let ?Q = "\<lambda>n. P (int n)"
  have "?Q (nat d)" using assms by simp
  then have L: "?Q (LEAST n. ?Q n)" by (rule LeastI)
  have "int (LEAST n. ?Q n) \<le> d'" if "P d'" for d'
  proof -
    have "?Q (nat d')" using that assms(2) by simp
    then have "(LEAST n. ?Q n) \<le> nat d'" by (rule Least_le)
    then show ?thesis using assms(2) [OF that] by simp
  qed
  with L show ?thesis by blast
qed

lemma nearest_records_exist:
  assumes "w \<in> W" "records md w v d"
  shows "\<exists>x d0. (x, d0) \<in> nearest_records md W v"
proof -
  let ?P = "\<lambda>d. \<exists>w \<in> W. records md w v d"
  have "?P d" using assms by blast
  from least_distance [where P = ?P, OF this] records_nonneg
  obtain d0 where "?P d0" "\<forall>d. ?P d \<longrightarrow> d0 \<le> d" by blast
  then show ?thesis by (auto simp: nearest_records_def)
qed

lemma nearest_records_first:
  assumes "nearest_records md W v = {}" "records md w v d"
  shows "nearest_records md (insert w W) v = {(w, d)}"
proof -
  have none: "\<not> records md w' v d'" if "w' \<in> W" for w' d'
    using nearest_records_exist [OF that] assms(1) by blast
  show ?thesis
    using assms(2) none records_fun [of md w v]
    by (auto simp: nearest_records_def)
qed

lemma nearest_records_closer:
  assumes "(x, d0) \<in> nearest_records md W v" "records md w v d" "d < d0"
  shows "nearest_records md (insert w W) v = {(w, d)}"
proof -
  have ge: "d0 \<le> d'" if "w' \<in> W" "records md w' v d'" for w' d'
    using assms(1) that by (auto simp: nearest_records_def)
  show ?thesis
  proof (intro equalityI subsetI)
    fix p
    assume p: "p \<in> nearest_records md (insert w W) v"
    obtain y e where ye: "p = (y, e)" by (cases p)
    with p have y: "y \<in> insert w W" "records md y v e" "e \<le> d"
      using assms(2) by (auto simp: nearest_records_def)
    have "y = w"
    proof (rule ccontr)
      assume "y \<noteq> w"
      with y(1) have "y \<in> W" by simp
      from ge [OF this y(2)] y(3) assms(3) show False by simp
    qed
    with y(2) assms(2) ye show "p \<in> {(w, d)}"
      using records_fun by fastforce
  next
    fix p
    assume "p \<in> {(w, d)}"
    then have p: "p = (w, d)" by simp
    have "d \<le> d'" if "w' \<in> insert w W" "records md w' v d'" for w' d'
    proof (cases "w' = w")
      case True
      with that assms(2) show ?thesis using records_fun by fastforce
    next
      case False
      with that have "w' \<in> W" by simp
      from ge [OF this that(2)] assms(3) show ?thesis by simp
    qed
    then show "p \<in> nearest_records md (insert w W) v"
      using p assms(2) by (auto simp: nearest_records_def)
  qed
qed

lemma nearest_records_tie:
  assumes "(x, d0) \<in> nearest_records md W v" "records md w v d0"
  shows "nearest_records md (insert w W) v = insert (w, d0) (nearest_records md W v)"
proof -
  have ge: "d0 \<le> d'" if "w' \<in> W" "records md w' v d'" for w' d'
    using assms(1) that by (auto simp: nearest_records_def)
  have x: "x \<in> W" "records md x v d0"
    using assms(1) by (auto simp: nearest_records_def)
  have ge': "d0 \<le> d'" if "w' \<in> insert w W" "records md w' v d'" for w' d'
  proof (cases "w' = w")
    case True
    with that assms(2) show ?thesis using records_fun by fastforce
  next
    case False
    with that have "w' \<in> W" by simp
    from ge [OF this that(2)] show ?thesis .
  qed
  have min: "e = d0" if "(y, e) \<in> nearest_records md W v" for y e
    using that x ge by (fastforce simp: nearest_records_def)
  have min': "e = d0" if "(y, e) \<in> nearest_records md (insert w W) v" for y e
    using that x ge' by (fastforce simp: nearest_records_def)
  show ?thesis
  proof (intro equalityI subsetI)
    fix p
    assume p: "p \<in> nearest_records md (insert w W) v"
    obtain y e where ye: "p = (y, e)" by (cases p)
    with p min' have e: "e = d0" by blast
    from p ye have y: "y \<in> insert w W" "records md y v e"
      by (auto simp: nearest_records_def)
    show "p \<in> insert (w, d0) (nearest_records md W v)"
    proof (cases "y = w")
      case True
      with ye e show ?thesis by simp
    next
      case False
      with y(1) have "y \<in> W" by simp
      with y(2) e ge have "(y, e) \<in> nearest_records md W v"
        by (auto simp: nearest_records_def)
      with ye show ?thesis by simp
    qed
  next
    fix p
    assume p: "p \<in> insert (w, d0) (nearest_records md W v)"
    obtain y e where ye: "p = (y, e)" by (cases p)
    from p ye consider "y = w" "e = d0" | "(y, e) \<in> nearest_records md W v" by auto
    then show "p \<in> nearest_records md (insert w W) v"
    proof cases
      case 1
      with ye assms(2) ge' show ?thesis by (auto simp: nearest_records_def)
    next
      case 2
      with min have "e = d0" by blast
      with 2 ye ge' show ?thesis by (auto simp: nearest_records_def)
    qed
  qed
qed

lemma nearest_records_farther:
  assumes "(x, d0) \<in> nearest_records md W v" "records md w v d" "d0 < d" "w \<notin> W"
  shows "nearest_records md (insert w W) v = nearest_records md W v"
proof -
  have x: "x \<in> W" "records md x v d0"
    using assms(1) by (auto simp: nearest_records_def)
  have wd: "d' = d" if "records md w v d'" for d'
    using that assms(2) records_fun by fastforce
  show ?thesis
  proof (intro equalityI subsetI)
    fix p
    assume p: "p \<in> nearest_records md (insert w W) v"
    obtain y e where ye: "p = (y, e)" by (cases p)
    with p have y: "y \<in> insert w W" "records md y v e"
        "\<forall>w' \<in> insert w W. \<forall>d'. records md w' v d' \<longrightarrow> e \<le> d'"
      by (auto simp: nearest_records_def)
    from y(3) x have "e \<le> d0" by blast
    with assms(3) wd y(2) have "y \<noteq> w" by fastforce
    with y ye show "p \<in> nearest_records md W v"
      by (auto simp: nearest_records_def)
  next
    fix p
    assume p: "p \<in> nearest_records md W v"
    obtain y e where ye: "p = (y, e)" by (cases p)
    with p have y: "y \<in> W" "records md y v e"
        "\<forall>w' \<in> W. \<forall>d'. records md w' v d' \<longrightarrow> e \<le> d'"
      by (auto simp: nearest_records_def)
    from y(3) x have "e \<le> d0" by blast
    with assms(3) wd have "e \<le> d'" if "records md w v d'" for d'
      using that by fastforce
    with y ye show "p \<in> nearest_records md (insert w W) v"
      by (auto simp: nearest_records_def)
  qed
qed

lemma nearest_records_other:
  assumes "\<And>d. \<not> records md w v d"
  shows "nearest_records md (insert w W) v = nearest_records md W v"
  using assms by (auto simp: nearest_records_def)

lemma nearest_records_self:
  "nearest_records md (insert w W) w = {(w, 0)}"
proof (intro equalityI subsetI)
  fix p
  assume p: "p \<in> nearest_records md (insert w W) w"
  obtain y e where ye: "p = (y, e)" by (cases p)
  with p have y: "records md y w e" "e \<le> 0"
    using records_self [of md w] by (auto simp: nearest_records_def)
  with records_nonneg [OF y(1)] have "e = 0" by simp
  with y(1) records_zero [of md y w] ye show "p \<in> {(w, 0)}" by simp
next
  fix p
  assume "p \<in> {(w, 0::int)}"
  then show "p \<in> nearest_records md (insert w W) w"
    using records_self [of md w] records_nonneg [of md _ w]
    by (auto simp: nearest_records_def)
qed

lemma keep_lowest_distance_minimal:
  assumes "\<not> keep_all_suggestions f"
  shows "keep_lowest_distance f l s =
           (if l = [] then [s]
            else if s_distance s < s_distance (hd l) then [s]
            else if s_distance s = s_distance (hd l) then l @ [s]
            else l)"
  using assms by (auto simp: keep_lowest_distance_def Let_def)

lemma keep_lowest_distance_flag:
  "keep_all_suggestions f = keep_all_suggestions g
     \<Longrightarrow> keep_lowest_distance f l s = keep_lowest_distance g l s"
  by (simp add: keep_lowest_distance_def)

lemma stored_add_delete:
  "stored (add_delete f entry d) k =
     (if k = s_term d
      then keep_lowest_distance f (stored f k) (Suggestion_init entry 0 (s_distance d))
      else stored f k)"
  by (simp add: stored_cases add_delete_suggestions getitem_snd)

lemma stored_add_deletes_other:
  "k \<notin> s_term ` set ds \<Longrightarrow> stored (add_deletes f entry ds) k = stored f k"
  by (induction ds arbitrary: f) (simp_all add: stored_add_delete)

lemma stored_add_deletes_variant:
  assumes "distinct (map s_term ds)" "d \<in> set ds"
  shows "stored (add_deletes f entry ds) (s_term d)
           = keep_lowest_distance f (stored f (s_term d)) (Suggestion_init entry 0 (s_distance d))"
  using assms
proof (induction ds arbitrary: f)
  case Nil
  then show ?case by simp
next
  case (Cons x xs)
  show ?case
  proof (cases "d = x")
    case True
    with Cons.prems(1) have "s_term d \<notin> s_term ` set xs" by auto
    with True show ?thesis
      by (simp add: stored_add_deletes_other stored_add_delete)
  next
    case False
    have d: "d \<in> set xs" using False Cons.prems(2) by simp
    have dist: "distinct (map s_term xs)" and nx: "s_term x \<notin> s_term ` set xs"
      using Cons.prems(1) by simp_all
    have ne: "s_term d \<noteq> s_term x" using d nx by (metis imageI)
    have "stored (add_deletes (add_delete f entry x) entry xs) (s_term d)
            = keep_lowest_distance (add_delete f entry x) (stored (add_delete f entry x) (s_term d))
                (Suggestion_init entry 0 (s_distance d))"
      using dist d by (rule Cons.IH)
    also have "\<dots> = keep_lowest_distance f (stored f (s_term d)) (Suggestion_init entry 0 (s_distance d))"
      using ne keep_lowest_distance_flag [of "add_delete f entry x" f]
      by (simp add: stored_add_delete add_delete_fields)
    finally show ?thesis by simp
  qed
qed

text \<open>
  The list under every key after \<^verbatim>\<open>add_entry\<close> has added a new word \<open>w\<close>, from the
  list before.
\<close>

lemma stored_add_entry_new:
  assumes new: "dictionary f w = None" and md: "1 \<le> max_distance f"
  shows "stored (fst (add_entry f w)) v =
           (if v = w then [Suggestion_init w 0 0]
            else if \<exists>d. (v, d) \<in> deletions w (max_distance f) 1
            then keep_lowest_distance f (stored f v)
                   (Suggestion_init w 0 (THE d. (v, d) \<in> deletions w (max_distance f) 1))
            else stored f v)"
proof -
  let ?g = "f\<lparr>dictionary := (dictionary f)(w \<mapsto> \<lparr>t_term = w, t_count = 0\<rparr>),
               suggestions := (suggestions f)(w \<mapsto> [Suggestion_init w 0 0])\<rparr>"
  let ?ds = "edits w (max_distance f) 1"
  have ed: "pairs ?ds = deletions w (max_distance f) 1" "distinct (map s_term ?ds)"
    using edits_deletions [OF md, of w] by simp_all
  have st: "stored (fst (add_entry f w)) v = stored (add_deletes ?g w ?ds) v"
    using new by (simp add: stored_cases add_entry_suggestions)
  have g: "stored ?g v = (if v = w then [Suggestion_init w 0 0] else stored f v)"
    by (simp add: stored_cases)
  have flag: "keep_all_suggestions ?g = keep_all_suggestions f" by simp
  show ?thesis
  proof (cases "v = w")
    case True
    have "w \<notin> s_term ` set ?ds"
      using edits_term_shorter [of _ w "max_distance f" 1] by fastforce
    with True st g show ?thesis by (simp add: stored_add_deletes_other)
  next
    case False
    show ?thesis
    proof (cases "\<exists>d. (v, d) \<in> deletions w (max_distance f) 1")
      case True
      then obtain d where d: "(v, d) \<in> deletions w (max_distance f) 1" by blast
      then have the: "(THE d. (v, d) \<in> deletions w (max_distance f) 1) = d"
        using deletions_distance by (intro the_equality) auto
      from d ed(1) have "(v, d) \<in> pairs ?ds" by simp
      then obtain s where s: "s \<in> set ?ds" "s_term s = v" "s_distance s = d"
        by (auto simp: pairs_def)
      from stored_add_deletes_variant [OF ed(2) s(1), of ?g w] s(2,3)
      have "stored (add_deletes ?g w ?ds) v
              = keep_lowest_distance ?g (stored ?g v) (Suggestion_init w 0 d)"
        by simp
      also have "\<dots> = keep_lowest_distance f (stored f v) (Suggestion_init w 0 d)"
        using False g keep_lowest_distance_flag [OF flag] by simp
      finally show ?thesis using False True the st by simp
    next
      case none: False
      have "v \<notin> s_term ` set ?ds"
      proof
        assume "v \<in> s_term ` set ?ds"
        then obtain d where "(v, d) \<in> pairs ?ds" by (metis term_pairs)
        with ed(1) none show False by blast
      qed
      with False none st g show ?thesis by (simp add: stored_add_deletes_other)
    qed
  qed
qed

lemma add_entry_fields:
  "max_distance (fst (add_entry f w)) = max_distance f"
  "keep_all_suggestions (fst (add_entry f w)) = keep_all_suggestions f"
  "metric (fst (add_entry f w)) = metric f"
  by (simp_all add: add_entry_def Let_def add_deletes_fields split: option.splits)

lemma hd_minimal:
  assumes "pairs l = nearest_records md W v" "l \<noteq> []"
  shows "(s_term (hd l), s_distance (hd l)) \<in> nearest_records md W v"
proof -
  have "hd l \<in> set l" using assms(2) by simp
  then have "(s_term (hd l), s_distance (hd l)) \<in> pairs l"
    unfolding pairs_def by (rule imageI)
  with assms(1) show ?thesis by simp
qed

lemma index_ok_add_entry:
  assumes ok: "index_ok md f W" and md: "1 \<le> md"
  shows "index_ok md (fst (add_entry f w)) (insert w W)"
proof -
  from ok have flag: "\<not> keep_all_suggestions f" and mdf: "max_distance f = md"
    and dom: "dom (dictionary f) = W"
    and lists: "\<And>v. pairs (stored f v) = nearest_records md W v"
               "\<And>v. distinct (map s_term (stored f v))"
    by (simp_all add: index_ok_def)
  have fields: "\<not> keep_all_suggestions (fst (add_entry f w))"
      "max_distance (fst (add_entry f w)) = md"
      "dom (dictionary (fst (add_entry f w))) = insert w W"
    using flag mdf dom by (simp_all add: add_entry_fields dom_add_entry)
  have "pairs (stored (fst (add_entry f w)) v) = nearest_records md (insert w W) v
        \<and> distinct (map s_term (stored (fst (add_entry f w)) v))" for v
  proof (cases "dictionary f w")
    case (Some trm)
    then have "w \<in> W" using dom by blast
    then have "insert w W = W" by blast
    moreover have "stored (fst (add_entry f w)) v = stored f v"
      using Some by (simp add: stored_cases add_entry_suggestions)
    ultimately show ?thesis using lists by simp
  next
    case None
    then have wW: "w \<notin> W" using dom by blast
    note st = stored_add_entry_new [OF None, unfolded mdf, OF md, of v]
    show ?thesis
    proof (cases "v = w")
      case True
      with st show ?thesis
        by (simp add: nearest_records_self pairs_def Suggestion_init_def)
    next
      case False
      show ?thesis
      proof (cases "\<exists>d. (v, d) \<in> deletions w md 1")
        case none: False
        then have "\<not> records md w v d" for d
          using False by (simp add: records_def)
        then have "nearest_records md (insert w W) v = nearest_records md W v"
          by (rule nearest_records_other)
        with False none st lists show ?thesis by simp
      next
        case True
        then obtain d where d: "(v, d) \<in> deletions w md 1" by blast
        then have the: "(THE d. (v, d) \<in> deletions w md 1) = d"
          using deletions_distance by (intro the_equality) auto
        have pr: "records md w v d" using d by (simp add: records_def)
        let ?l = "stored f v"
        let ?s = "Suggestion_init w 0 d"
        have new: "stored (fst (add_entry f w)) v = keep_lowest_distance f ?l ?s"
          using st False True the by simp
        have s: "s_term ?s = w" "s_distance ?s = d" by (simp_all add: Suggestion_init_def)
        have wl: "w \<notin> s_term ` set ?l"
        proof
          assume "w \<in> s_term ` set ?l"
          then obtain e where "(w, e) \<in> pairs ?l" by (metis term_pairs)
          with lists(1) [of v] have "w \<in> W" by (simp add: nearest_records_def)
          with wW show False by simp
        qed
        show ?thesis
        proof (cases "?l = []")
          case True
          then have "nearest_records md W v = {}" using lists(1) [of v] by (simp add: pairs_def)
          from nearest_records_first [OF this pr] True new flag s show ?thesis
            by (simp add: keep_lowest_distance_minimal pairs_def)
        next
          case ne: False
          let ?d0 = "s_distance (hd ?l)"
          have hd: "(s_term (hd ?l), ?d0) \<in> nearest_records md W v"
            using lists(1) [of v] ne by (rule hd_minimal)
          consider "d < ?d0" | "d = ?d0" | "?d0 < d" by linarith
          then show ?thesis
          proof cases
            case 1
            from nearest_records_closer [OF hd pr 1] 1 ne new flag s show ?thesis
              by (simp add: keep_lowest_distance_minimal pairs_def)
          next
            case 2
            with pr have "records md w v ?d0" by simp
            from nearest_records_tie [OF hd this] 2 ne new flag s wl lists [of v] show ?thesis
              by (simp add: keep_lowest_distance_minimal pairs_append, simp add: pairs_def)
          next
            case 3
            from nearest_records_farther [OF hd pr 3 wW] 3 ne new flag s lists [of v] show ?thesis
              by (simp add: keep_lowest_distance_minimal)
          qed
        qed
      qed
    qed
  qed
  with fields show ?thesis by (simp add: index_ok_def)
qed

lemma index_ok_init: "index_ok md (FarooSpellingCorrector_init md False m) {}"
  by (simp add: index_ok_def FarooSpellingCorrector_init_def stored_cases pairs_def
        nearest_records_def)

lemma index_ok_add_corpus_loop:
  assumes "index_ok md (fst st) W" "1 \<le> md"
  shows "index_ok md (fst (add_corpus_loop st corpus)) (W \<union> set corpus)"
  using assms(1)
proof (induction corpus arbitrary: st W)
  case Nil
  then show ?case by simp
next
  case (Cons word corpus)
  have "fst (add_corpus_step st word) = fst (add_entry (fst st) word)"
    by (simp add: add_corpus_step_def split: prod.splits)
  with index_ok_add_entry [OF Cons.prems assms(2), of word]
  have "index_ok md (fst (add_corpus_step st word)) (insert word W)" by simp
  from Cons.IH [OF this] show ?case by simp
qed

lemma index_ok_add_corpus:
  assumes "1 \<le> md"
  shows "index_ok md (fst (add_corpus (FarooSpellingCorrector_init md False m) corpus)) (set corpus)"
  using index_ok_add_corpus_loop [of md "(FarooSpellingCorrector_init md False m, 0)" "{}", OF _ assms]
  by (simp add: add_corpus_def index_ok_init)

lemma records_iff:
  "records md w v d \<longleftrightarrow>
     (v = w \<and> d = 0)
     \<or> (1 \<le> d \<and> d \<le> md \<and> v \<noteq> [] \<and> subseq v w \<and> int (length w) = int (length v) + d)"
  by (auto simp: records_def deletions_def)

lemma records_produces: "v \<noteq> [] \<Longrightarrow> records md w v d \<longleftrightarrow> produces md w v d"
  by (auto simp: records_iff produces_def)

lemma records_empty: "records md w [] d \<longleftrightarrow> w = [] \<and> d = 0"
  by (auto simp: records_iff)

lemma nearest_records_empty:
  "nearest_records md W [] = (if [] \<in> W then {([], 0)} else {})"
  by (auto simp: nearest_records_def records_empty)

lemma empty_variant_stored:
  "stored (fst (add_corpus (FarooSpellingCorrector_init 2 False edit_distance) [''ab''])) [] = []"
  by code_simp

text \<open>
  C4, with the exception it needs. With \<^verbatim>\<open>keep_all_suggestions\<close> disabled and
  \<^verbatim>\<open>max_distance\<close> at least 1, after the words \<open>ws\<close> have been added to a new corrector, in
  this order, the list of every non-empty variant \<open>v\<close> holds exactly the words of \<open>ws\<close> that
  produce \<open>v\<close> at the least deletion distance at which any word of \<open>ws\<close> produces it, each
  with that distance. The empty string is the exception: no word is recorded under it as
  a deletion variant, so its list holds the empty word alone, at 0, if that was added,
  and is empty otherwise. In every list each word occurs once and all entries share one
  distance. The list changes through \<^verbatim>\<open>keep_lowest_distance\<close>: onto an empty list the new
  suggestion is put, a strictly smaller distance than that of the list replaces the list
  by the new suggestion, an equal distance appends it, a larger one leaves the list. For
  a non-empty variant other than the word, to be produced by the word is to be a term
  that \<^verbatim>\<open>edits\<close> returns for it, at the distance returned.
\<close>

theorem minimal_distance_index:
  assumes "1 \<le> md"
  shows "(v \<noteq> [] \<longrightarrow>
            pairs (stored (fst (add_corpus (FarooSpellingCorrector_init md False m) ws)) v)
              = {(w, d). w \<in> set ws \<and> produces md w v d
                         \<and> (\<forall>w' \<in> set ws. \<forall>d'. produces md w' v d' \<longrightarrow> d \<le> d')})
         \<and> pairs (stored (fst (add_corpus (FarooSpellingCorrector_init md False m) ws)) [])
              = (if [] \<in> set ws then {([], 0)} else {})
         \<and> distinct (map s_term (stored (fst (add_corpus (FarooSpellingCorrector_init md False m) ws)) v))
         \<and> (\<forall>s \<in> set (stored (fst (add_corpus (FarooSpellingCorrector_init md False m) ws)) v).
              \<forall>s' \<in> set (stored (fst (add_corpus (FarooSpellingCorrector_init md False m) ws)) v).
                s_distance s = s_distance s')
         \<and> (\<forall>f l s. \<not> keep_all_suggestions f \<longrightarrow>
               keep_lowest_distance f l s =
                 (if l = [] then [s]
                  else if s_distance s < s_distance (hd l) then [s]
                  else if s_distance s = s_distance (hd l) then l @ [s]
                  else l))
         \<and> (\<forall>w u d. u \<noteq> [] \<longrightarrow> u \<noteq> w \<longrightarrow>
               (produces md w u d \<longleftrightarrow> (u, d) \<in> pairs (edits w md 1)))"
proof -
  let ?f = "fst (add_corpus (FarooSpellingCorrector_init md False m) ws)"
  have ok: "index_ok md ?f (set ws)"
    using assms by (rule index_ok_add_corpus)
  then have 1: "pairs (stored ?f u) = nearest_records md (set ws) u"
    and 2: "distinct (map s_term (stored ?f u))" for u
    by (simp_all add: index_ok_def)
  have 3: "s_distance s = s_distance s'" if "s \<in> set (stored ?f v)" "s' \<in> set (stored ?f v)" for s s'
  proof -
    from that have "(s_term s, s_distance s) \<in> pairs (stored ?f v)"
        "(s_term s', s_distance s') \<in> pairs (stored ?f v)"
      by (auto simp: pairs_def)
    with 1 have m: "(s_term s, s_distance s) \<in> nearest_records md (set ws) v"
        "(s_term s', s_distance s') \<in> nearest_records md (set ws) v"
      by simp_all
    from m have "s_distance s \<le> s_distance s'" by (auto simp: nearest_records_def)
    moreover from m have "s_distance s' \<le> s_distance s" by (auto simp: nearest_records_def)
    ultimately show ?thesis by simp
  qed
  have 4: "\<forall>f l s. \<not> keep_all_suggestions f \<longrightarrow>
               keep_lowest_distance f l s =
                 (if l = [] then [s]
                  else if s_distance s < s_distance (hd l) then [s]
                  else if s_distance s = s_distance (hd l) then l @ [s]
                  else l)"
    using keep_lowest_distance_minimal by blast
  have 5: "\<forall>w u d. u \<noteq> [] \<longrightarrow> u \<noteq> w \<longrightarrow>
               (produces md w u d \<longleftrightarrow> (u, d) \<in> pairs (edits w md 1))"
    using records_edits [OF assms] records_produces by blast
  have 6: "pairs (stored ?f v)
           = {(w, d). w \<in> set ws \<and> produces md w v d
                      \<and> (\<forall>w' \<in> set ws. \<forall>d'. produces md w' v d' \<longrightarrow> d \<le> d')}"
    if "v \<noteq> []"
    unfolding 1 nearest_records_def by (simp add: records_produces [OF that])
  have 7: "pairs (stored ?f []) = (if [] \<in> set ws then {([], 0)} else {})"
    unfolding 1 by (rule nearest_records_empty)
  from 6 7 2 [of v] 3 4 5 show ?thesis by blast
qed

lemma doctest_stored_hel:
  "stored (doctest_corrector False) ''hel'' = [Suggestion_init ''hell'' 0 1]"
  by code_simp

theorem minimal_distance_index_witness:
  "stored (doctest_corrector False) ''hel'' = [Suggestion_init ''hell'' 0 1]
   \<and> pairs (stored (doctest_corrector False) ''hel'')
       = {(w, d). w \<in> set [''hello'', ''hell''] \<and> produces 2 w ''hel'' d
                  \<and> (\<forall>w' \<in> set [''hello'', ''hell'']. \<forall>d'. produces 2 w' ''hel'' d' \<longrightarrow> d \<le> d')}"
proof -
  have "(1::int) \<le> 2" by simp
  from minimal_distance_index [OF this, of "''hel''" edit_distance "[''hello'', ''hell'']"]
  have "''hel'' \<noteq> [] \<longrightarrow> pairs (stored (doctest_corrector False) ''hel'')
       = {(w, d). w \<in> set [''hello'', ''hell''] \<and> produces 2 w ''hel'' d
                  \<and> (\<forall>w' \<in> set [''hello'', ''hell'']. \<forall>d'. produces 2 w' ''hel'' d' \<longrightarrow> d \<le> d')}"
    unfolding doctest_corrector_def by (rule conjunct1)
  moreover have "''hel'' \<noteq> []" by simp
  ultimately have "pairs (stored (doctest_corrector False) ''hel'')
       = {(w, d). w \<in> set [''hello'', ''hell''] \<and> produces 2 w ''hel'' d
                  \<and> (\<forall>w' \<in> set [''hello'', ''hell'']. \<forall>d'. produces 2 w' ''hel'' d' \<longrightarrow> d \<le> d')}"
    by (rule mp)
  with doctest_stored_hel show ?thesis by (rule conjI)
qed

text \<open>
  C4 as stated fails at the empty variant: with \<^verbatim>\<open>max_distance = 2\<close> the word \<^verbatim>\<open>ab\<close>
  produces the empty string by two deletions, and it is the only word of the corpus
  \<^verbatim>\<open>["ab"]\<close>, so it produces the empty string at the least distance; the list of the
  empty string in the index is empty.
\<close>

theorem index_omits_empty_variant:
  "produces 2 ''ab'' [] 2
   \<and> (''ab'', 2) \<in> {(w, d). w \<in> set [''ab''] \<and> produces 2 w [] d
                          \<and> (\<forall>w' \<in> set [''ab'']. \<forall>d'. produces 2 w' [] d' \<longrightarrow> d \<le> d')}
   \<and> stored (fst (add_corpus (FarooSpellingCorrector_init 2 False edit_distance) [''ab''])) [] = []
   \<and> pairs (stored (fst (add_corpus (FarooSpellingCorrector_init 2 False edit_distance) [''ab''])) [])
        \<noteq> {(w, d). w \<in> set [''ab''] \<and> produces 2 w [] d
                      \<and> (\<forall>w' \<in> set [''ab'']. \<forall>d'. produces 2 w' [] d' \<longrightarrow> d \<le> d')}"
proof -
  have p: "produces 2 ''ab'' [] 2"
    by (simp add: produces_def)
  have m: "(''ab'', 2) \<in> {(w, d). w \<in> set [''ab''] \<and> produces 2 w [] d
                          \<and> (\<forall>w' \<in> set [''ab'']. \<forall>d'. produces 2 w' [] d' \<longrightarrow> d \<le> d')}"
    by (simp add: produces_def)
  have "pairs (stored (fst (add_corpus (FarooSpellingCorrector_init 2 False edit_distance) [''ab''])) []) = {}"
    by (simp add: empty_variant_stored pairs_def)
  with m have "pairs (stored (fst (add_corpus (FarooSpellingCorrector_init 2 False edit_distance) [''ab''])) [])
        \<noteq> {(w, d). w \<in> set [''ab''] \<and> produces 2 w [] d
                      \<and> (\<forall>w' \<in> set [''ab'']. \<forall>d'. produces 2 w' [] d' \<longrightarrow> d \<le> d')}"
    by blast
  with p m empty_variant_stored show ?thesis by blast
qed

end
